theory Spec2Isabelle
  imports Main
begin

section \<open>The chess variant of ChessVar.py\<close>

text \<open>
  The program is a two-player chess variant: standard movement, no castling, en passant
  or promotion, and the first player to capture every piece of one kind of the opponent
  wins. The model below follows the three classes of the source (\<open>ChessVar\<close>,
  \<open>ChessBoard\<close>, \<open>Piece\<close> with its six subclasses). Console output
  (\<open>print\<close>, \<open>display_board\<close>, \<open>__repr__\<close>) has no effect on the
  state and is left out.
\<close>

subsection \<open>Data\<close>

text \<open>The strings \<open>'WHITE'\<close> and \<open>'BLACK'\<close>, used as piece colour and as player turn.\<close>

datatype color = WHITE | BLACK

text \<open>The six subclasses of \<open>Piece\<close>; \<open>__class__.__name__\<close> of a piece is one of these.\<close>

datatype kind = King | Queen | Rook | Bishop | Knight | Pawn

text \<open>A piece object: its \<open>_color\<close> attribute and its class.\<close>

datatype piece = Piece (get_color: color) (class_name: kind)

text \<open>The three values of \<open>_game_state\<close>.\<close>

datatype state = UNFINISHED | WHITE_WON | BLACK_WON

text \<open>The exceptions that subscripting a list, a string or a dictionary can raise.\<close>

datatype py_error = IndexError | KeyError

text \<open>
  \<open>ChessBoard\<close>: \<open>_board\<close> is a list of rows, each a list of cells holding a piece
  or \<open>None\<close>; \<open>_current_pieces_on_board\<close> is the nested dictionary of counts. Its
  keys are the two colours and the six class names, all present from the constructor on
  and never deleted, so the dictionary is a total function on them.
\<close>

record chess_board =
  board :: "piece option list list"
  current_pieces_on_board :: "color \<Rightarrow> kind \<Rightarrow> int"

text \<open>\<open>ChessVar\<close>: the board object, the player turn and the game state.\<close>

record chess_var =
  game_board :: chess_board
  player_turn :: color
  game_state :: state

subsection \<open>Subscripting\<close>

text \<open>
  How \<open>xs[i]\<close> is read. \<open>Python\<close> is the language's own rule: an index in
  \<open>[-len, len)\<close> is accepted, a negative one counting from the end, and any other
  index raises \<open>IndexError\<close>. \<open>Checked\<close> is the stricter rule that accepts only
  \<open>[0, len)\<close>; a computation that returns normally under it has used no index
  outside that range. Every operation below takes the rule as its first argument; the
  program itself is the instance \<open>Python\<close>.
\<close>

datatype subscript = Python | Checked

definition py_index :: "subscript \<Rightarrow> 'a list \<Rightarrow> int \<Rightarrow> py_error + 'a" where
  "py_index ix xs i =
     (let n = int (length xs);
          j = (if i < 0 \<and> ix = Python then n + i else i)
      in if 0 \<le> j \<and> j < n then Inr (xs ! nat j) else Inl IndexError)"

text \<open>\<open>xs[i] = v\<close>, with the same rule for the index.\<close>

definition py_setitem :: "subscript \<Rightarrow> 'a list \<Rightarrow> int \<Rightarrow> 'a \<Rightarrow> py_error + 'a list" where
  "py_setitem ix xs i v =
     (let n = int (length xs);
          j = (if i < 0 \<and> ix = Python then n + i else i)
      in if 0 \<le> j \<and> j < n then Inr (xs[nat j := v]) else Inl IndexError)"

subsection \<open>ChessBoard\<close>

definition ChessBoard_init :: chess_board where
  "ChessBoard_init = \<lparr>
     board =
       [[Some (Piece BLACK Rook), Some (Piece BLACK Knight), Some (Piece BLACK Bishop),
         Some (Piece BLACK Queen), Some (Piece BLACK King), Some (Piece BLACK Bishop),
         Some (Piece BLACK Knight), Some (Piece BLACK Rook)],
        [Some (Piece BLACK Pawn), Some (Piece BLACK Pawn), Some (Piece BLACK Pawn),
         Some (Piece BLACK Pawn), Some (Piece BLACK Pawn), Some (Piece BLACK Pawn),
         Some (Piece BLACK Pawn), Some (Piece BLACK Pawn)],
        [None, None, None, None, None, None, None, None],
        [None, None, None, None, None, None, None, None],
        [None, None, None, None, None, None, None, None],
        [None, None, None, None, None, None, None, None],
        [Some (Piece WHITE Pawn), Some (Piece WHITE Pawn), Some (Piece WHITE Pawn),
         Some (Piece WHITE Pawn), Some (Piece WHITE Pawn), Some (Piece WHITE Pawn),
         Some (Piece WHITE Pawn), Some (Piece WHITE Pawn)],
        [Some (Piece WHITE Rook), Some (Piece WHITE Knight), Some (Piece WHITE Bishop),
         Some (Piece WHITE Queen), Some (Piece WHITE King), Some (Piece WHITE Bishop),
         Some (Piece WHITE Knight), Some (Piece WHITE Rook)]],
     current_pieces_on_board =
       (\<lambda>c k. case k of King \<Rightarrow> 1 | Queen \<Rightarrow> 1 | Rook \<Rightarrow> 2
                | Bishop \<Rightarrow> 2 | Knight \<Rightarrow> 2 | Pawn \<Rightarrow> 8) \<rparr>"

text \<open>\<open>get_piece_at\<close>: \<open>self._board[row][col]\<close>.\<close>

definition get_piece_at ::
  "subscript \<Rightarrow> chess_board \<Rightarrow> int \<Rightarrow> int \<Rightarrow> py_error + piece option" where
  "get_piece_at ix b row col =
     (case py_index ix (board b) row of
        Inl e \<Rightarrow> Inl e
      | Inr r \<Rightarrow> py_index ix r col)"

text \<open>\<open>remove_piece_from_board\<close>: decrement one entry of the nested dictionary.\<close>

definition remove_piece_from_board :: "chess_board \<Rightarrow> color \<Rightarrow> kind \<Rightarrow> chess_board" where
  "remove_piece_from_board b c piece_name =
     b\<lparr>current_pieces_on_board :=
         (current_pieces_on_board b)
           (c := (current_pieces_on_board b c)
                   (piece_name := current_pieces_on_board b c piece_name - 1))\<rparr>"

text \<open>
  \<open>move_piece\<close>. The source reads the destination cell, decrements the count of the
  piece found there, then executes
  \<open>self._board[to_row][to_col] = self._board[from_row][from_col]\<close> (right-hand side
  first) and \<open>self._board[from_row][from_col] = None\<close>. The rows are eight distinct
  list objects, so storing into a row is an update of that row inside the outer list.
\<close>

definition board_setitem ::
  "subscript \<Rightarrow> chess_board \<Rightarrow> int \<Rightarrow> int \<Rightarrow> piece option \<Rightarrow> py_error + chess_board" where
  "board_setitem ix b row col v =
     (case py_index ix (board b) row of
        Inl e \<Rightarrow> Inl e
      | Inr r \<Rightarrow>
          (case py_setitem ix r col v of
             Inl e \<Rightarrow> Inl e
           | Inr r' \<Rightarrow>
               (case py_setitem ix (board b) row r' of
                  Inl e \<Rightarrow> Inl e
                | Inr rows \<Rightarrow> Inr (b\<lparr>board := rows\<rparr>))))"

definition move_piece ::
  "subscript \<Rightarrow> chess_board \<Rightarrow> int \<Rightarrow> int \<Rightarrow> int \<Rightarrow> int \<Rightarrow> py_error + chess_board" where
  "move_piece ix b from_row from_col to_row to_col =
     (case get_piece_at ix b to_row to_col of
        Inl e \<Rightarrow> Inl e
      | Inr piece_at_to_square \<Rightarrow>
          (let b1 = (case piece_at_to_square of
                       None \<Rightarrow> b
                     | Some p \<Rightarrow> remove_piece_from_board b (get_color p) (class_name p))
           in case get_piece_at ix b1 from_row from_col of
                Inl e \<Rightarrow> Inl e
              | Inr moving \<Rightarrow>
                  (case board_setitem ix b1 to_row to_col moving of
                     Inl e \<Rightarrow> Inl e
                   | Inr b2 \<Rightarrow> board_setitem ix b2 from_row from_col None)))"

text \<open>
  A bound on every index that \<open>get_piece_at\<close> accepts, whatever the shape of the rows;
  it is the measure that ends the loops of the path checks.
\<close>

definition board_extent :: "chess_board \<Rightarrow> int" where
  "board_extent b = int (length (board b)) + int (sum_list (map length (board b)))"

lemma py_index_bounds:
  "py_index ix xs i = Inr v \<Longrightarrow> - int (length xs) \<le> i \<and> i < int (length xs)"
  by (auto simp: py_index_def Let_def split: if_splits)

lemma py_index_mem: "py_index ix xs i = Inr v \<Longrightarrow> v \<in> set xs"
  by (auto simp: py_index_def Let_def split: if_splits)

lemma get_piece_at_bounds:
  assumes "get_piece_at ix b row col = Inr v"
  shows "- board_extent b \<le> row \<and> row < board_extent b
       \<and> - board_extent b \<le> col \<and> col < board_extent b"
proof -
  from assms obtain r where r: "py_index ix (board b) row = Inr r" "py_index ix r col = Inr v"
    by (auto simp: get_piece_at_def split: sum.splits)
  have "r \<in> set (board b)" using r(1) by (rule py_index_mem)
  then have "length r \<le> sum_list (map length (board b))"
    by (simp add: member_le_sum_list)
  with py_index_bounds [OF r(1)] py_index_bounds [OF r(2)] show ?thesis
    by (simp add: board_extent_def)
qed

subsection \<open>Piece\<close>

text \<open>
  \<open>Piece.is_valid_move\<close>, the check every subclass runs first through
  \<open>super()\<close>: the piece must have the colour of the turn, and the destination must
  not hold a piece of that colour.
\<close>

definition Piece_is_valid_move ::
  "subscript \<Rightarrow> piece \<Rightarrow> chess_board \<Rightarrow> color \<Rightarrow> int \<Rightarrow> int \<Rightarrow> int \<Rightarrow> int \<Rightarrow> py_error + bool" where
  "Piece_is_valid_move ix self board_object turn from_row from_col to_row to_col =
     (if get_color self \<noteq> turn then Inr False
      else case get_piece_at ix board_object to_row to_col of
             Inl e \<Rightarrow> Inl e
           | Inr piece_at_to_square \<Rightarrow>
               (case piece_at_to_square of
                  None \<Rightarrow> Inr True
                | Some p \<Rightarrow> if get_color p = turn then Inr False else Inr True))"

text \<open>
  The path checks. Each \<open>while\<close> loop of the source is one recursive function on
  the loop variables; the loop ends when the next square is the destination, returns
  \<open>False\<close> at the first occupied square, and otherwise steps on.
\<close>

function horizontal_right_loop ::
  "subscript \<Rightarrow> chess_board \<Rightarrow> int \<Rightarrow> int \<Rightarrow> int \<Rightarrow> py_error + bool" where
  "horizontal_right_loop ix board_object from_row from_col to_col =
     (if from_col + 1 \<noteq> to_col then
        (case get_piece_at ix board_object from_row (from_col + 1) of
           Inl e \<Rightarrow> Inl e
         | Inr None \<Rightarrow> horizontal_right_loop ix board_object from_row (from_col + 1) to_col
         | Inr (Some p) \<Rightarrow> Inr False)
      else Inr True)"
  by pat_completeness auto
termination
  by (relation "measure (\<lambda>(ix, b, r, c, tc). nat (board_extent b - c))")
     (auto dest: get_piece_at_bounds)

function horizontal_left_loop ::
  "subscript \<Rightarrow> chess_board \<Rightarrow> int \<Rightarrow> int \<Rightarrow> int \<Rightarrow> py_error + bool" where
  "horizontal_left_loop ix board_object from_row from_col to_col =
     (if from_col - 1 \<noteq> to_col then
        (case get_piece_at ix board_object from_row (from_col - 1) of
           Inl e \<Rightarrow> Inl e
         | Inr None \<Rightarrow> horizontal_left_loop ix board_object from_row (from_col - 1) to_col
         | Inr (Some p) \<Rightarrow> Inr False)
      else Inr True)"
  by pat_completeness auto
termination
  by (relation "measure (\<lambda>(ix, b, r, c, tc). nat (board_extent b + c + 1))")
     (auto dest: get_piece_at_bounds)

definition check_horizontal_path ::
  "subscript \<Rightarrow> chess_board \<Rightarrow> int \<Rightarrow> int \<Rightarrow> int \<Rightarrow> py_error + bool" where
  "check_horizontal_path ix board_object from_row from_col to_col =
     (if from_col < to_col then horizontal_right_loop ix board_object from_row from_col to_col
      else if from_col > to_col then horizontal_left_loop ix board_object from_row from_col to_col
      else Inr True)"

function vertical_down_loop ::
  "subscript \<Rightarrow> chess_board \<Rightarrow> int \<Rightarrow> int \<Rightarrow> int \<Rightarrow> py_error + bool" where
  "vertical_down_loop ix board_object from_row from_col to_row =
     (if from_row + 1 \<noteq> to_row then
        (case get_piece_at ix board_object (from_row + 1) from_col of
           Inl e \<Rightarrow> Inl e
         | Inr None \<Rightarrow> vertical_down_loop ix board_object (from_row + 1) from_col to_row
         | Inr (Some p) \<Rightarrow> Inr False)
      else Inr True)"
  by pat_completeness auto
termination
  by (relation "measure (\<lambda>(ix, b, r, c, tr). nat (board_extent b - r))")
     (auto dest: get_piece_at_bounds)

function vertical_up_loop ::
  "subscript \<Rightarrow> chess_board \<Rightarrow> int \<Rightarrow> int \<Rightarrow> int \<Rightarrow> py_error + bool" where
  "vertical_up_loop ix board_object from_row from_col to_row =
     (if from_row - 1 \<noteq> to_row then
        (case get_piece_at ix board_object (from_row - 1) from_col of
           Inl e \<Rightarrow> Inl e
         | Inr None \<Rightarrow> vertical_up_loop ix board_object (from_row - 1) from_col to_row
         | Inr (Some p) \<Rightarrow> Inr False)
      else Inr True)"
  by pat_completeness auto
termination
  by (relation "measure (\<lambda>(ix, b, r, c, tr). nat (board_extent b + r + 1))")
     (auto dest: get_piece_at_bounds)

definition check_vertical_path ::
  "subscript \<Rightarrow> chess_board \<Rightarrow> int \<Rightarrow> int \<Rightarrow> int \<Rightarrow> py_error + bool" where
  "check_vertical_path ix board_object from_row from_col to_row =
     (if from_row < to_row then vertical_down_loop ix board_object from_row from_col to_row
      else if from_row > to_row then vertical_up_loop ix board_object from_row from_col to_row
      else Inr True)"

text \<open>The four loops of \<open>check_diagonal_path\<close>, in the order of the source.\<close>

function diagonal_up_right_loop ::
  "subscript \<Rightarrow> chess_board \<Rightarrow> int \<Rightarrow> int \<Rightarrow> int \<Rightarrow> py_error + bool" where
  "diagonal_up_right_loop ix board_object from_row from_col to_col =
     (if from_col + 1 \<noteq> to_col then
        (case get_piece_at ix board_object (from_row - 1) (from_col + 1) of
           Inl e \<Rightarrow> Inl e
         | Inr None \<Rightarrow>
             diagonal_up_right_loop ix board_object (from_row - 1) (from_col + 1) to_col
         | Inr (Some p) \<Rightarrow> Inr False)
      else Inr True)"
  by pat_completeness auto
termination
  by (relation "measure (\<lambda>(ix, b, r, c, tc). nat (board_extent b - c))")
     (auto dest: get_piece_at_bounds)

function diagonal_down_right_loop ::
  "subscript \<Rightarrow> chess_board \<Rightarrow> int \<Rightarrow> int \<Rightarrow> int \<Rightarrow> py_error + bool" where
  "diagonal_down_right_loop ix board_object from_row from_col to_col =
     (if from_col + 1 \<noteq> to_col then
        (case get_piece_at ix board_object (from_row + 1) (from_col + 1) of
           Inl e \<Rightarrow> Inl e
         | Inr None \<Rightarrow>
             diagonal_down_right_loop ix board_object (from_row + 1) (from_col + 1) to_col
         | Inr (Some p) \<Rightarrow> Inr False)
      else Inr True)"
  by pat_completeness auto
termination
  by (relation "measure (\<lambda>(ix, b, r, c, tc). nat (board_extent b - c))")
     (auto dest: get_piece_at_bounds)

function diagonal_down_left_loop ::
  "subscript \<Rightarrow> chess_board \<Rightarrow> int \<Rightarrow> int \<Rightarrow> int \<Rightarrow> py_error + bool" where
  "diagonal_down_left_loop ix board_object from_row from_col to_col =
     (if from_col - 1 \<noteq> to_col then
        (case get_piece_at ix board_object (from_row + 1) (from_col - 1) of
           Inl e \<Rightarrow> Inl e
         | Inr None \<Rightarrow>
             diagonal_down_left_loop ix board_object (from_row + 1) (from_col - 1) to_col
         | Inr (Some p) \<Rightarrow> Inr False)
      else Inr True)"
  by pat_completeness auto
termination
  by (relation "measure (\<lambda>(ix, b, r, c, tc). nat (board_extent b + c + 1))")
     (auto dest: get_piece_at_bounds)

function diagonal_up_left_loop ::
  "subscript \<Rightarrow> chess_board \<Rightarrow> int \<Rightarrow> int \<Rightarrow> int \<Rightarrow> py_error + bool" where
  "diagonal_up_left_loop ix board_object from_row from_col to_col =
     (if from_col - 1 \<noteq> to_col then
        (case get_piece_at ix board_object (from_row - 1) (from_col - 1) of
           Inl e \<Rightarrow> Inl e
         | Inr None \<Rightarrow>
             diagonal_up_left_loop ix board_object (from_row - 1) (from_col - 1) to_col
         | Inr (Some p) \<Rightarrow> Inr False)
      else Inr True)"
  by pat_completeness auto
termination
  by (relation "measure (\<lambda>(ix, b, r, c, tc). nat (board_extent b + c + 1))")
     (auto dest: get_piece_at_bounds)

definition check_diagonal_path ::
  "subscript \<Rightarrow> chess_board \<Rightarrow> int \<Rightarrow> int \<Rightarrow> int \<Rightarrow> int \<Rightarrow> py_error + bool" where
  "check_diagonal_path ix board_object from_row from_col to_row to_col =
     (if from_row > to_row \<and> from_col < to_col then
        diagonal_up_right_loop ix board_object from_row from_col to_col
      else if from_row < to_row \<and> from_col < to_col then
        diagonal_down_right_loop ix board_object from_row from_col to_col
      else if from_row < to_row \<and> from_col > to_col then
        diagonal_down_left_loop ix board_object from_row from_col to_col
      else if from_row > to_row \<and> from_col > to_col then
        diagonal_up_left_loop ix board_object from_row from_col to_col
      else Inr True)"

definition King_is_valid_move ::
  "subscript \<Rightarrow> piece \<Rightarrow> chess_board \<Rightarrow> color \<Rightarrow> int \<Rightarrow> int \<Rightarrow> int \<Rightarrow> int \<Rightarrow> py_error + bool" where
  "King_is_valid_move ix self board_object turn from_row from_col to_row to_col =
     (case Piece_is_valid_move ix self board_object turn from_row from_col to_row to_col of
        Inl e \<Rightarrow> Inl e
      | Inr ok \<Rightarrow>
          if \<not> ok then Inr False
          else if \<bar>to_col - from_col\<bar> > 1 \<or> \<bar>to_row - from_row\<bar> > 1 then Inr False
          else Inr True)"

text \<open>
  The loop equations are recursive; they are unfolded one step at a time, by hand.
\<close>

declare horizontal_right_loop.simps [simp del]
  horizontal_left_loop.simps [simp del]
  vertical_down_loop.simps [simp del]
  vertical_up_loop.simps [simp del]
  diagonal_up_right_loop.simps [simp del]
  diagonal_down_right_loop.simps [simp del]
  diagonal_down_left_loop.simps [simp del]
  diagonal_up_left_loop.simps [simp del]

definition Rook_is_valid_move ::
  "subscript \<Rightarrow> piece \<Rightarrow> chess_board \<Rightarrow> color \<Rightarrow> int \<Rightarrow> int \<Rightarrow> int \<Rightarrow> int \<Rightarrow> py_error + bool" where
  "Rook_is_valid_move ix self board_object turn from_row from_col to_row to_col =
     (case Piece_is_valid_move ix self board_object turn from_row from_col to_row to_col of
        Inl e \<Rightarrow> Inl e
      | Inr ok \<Rightarrow>
          if \<not> ok then Inr False
          else if to_row = from_row then
            check_horizontal_path ix board_object from_row from_col to_col
          else if to_col = from_col then
            check_vertical_path ix board_object from_row from_col to_row
          else Inr False)"

definition Bishop_is_valid_move ::
  "subscript \<Rightarrow> piece \<Rightarrow> chess_board \<Rightarrow> color \<Rightarrow> int \<Rightarrow> int \<Rightarrow> int \<Rightarrow> int \<Rightarrow> py_error + bool" where
  "Bishop_is_valid_move ix self board_object turn from_row from_col to_row to_col =
     (case Piece_is_valid_move ix self board_object turn from_row from_col to_row to_col of
        Inl e \<Rightarrow> Inl e
      | Inr ok \<Rightarrow>
          if \<not> ok then Inr False
          else if \<bar>to_col - from_col\<bar> = \<bar>to_row - from_row\<bar> then
            check_diagonal_path ix board_object from_row from_col to_row to_col
          else Inr False)"

definition Queen_is_valid_move ::
  "subscript \<Rightarrow> piece \<Rightarrow> chess_board \<Rightarrow> color \<Rightarrow> int \<Rightarrow> int \<Rightarrow> int \<Rightarrow> int \<Rightarrow> py_error + bool" where
  "Queen_is_valid_move ix self board_object turn from_row from_col to_row to_col =
     (case Piece_is_valid_move ix self board_object turn from_row from_col to_row to_col of
        Inl e \<Rightarrow> Inl e
      | Inr ok \<Rightarrow>
          if \<not> ok then Inr False
          else if to_row = from_row then
            check_horizontal_path ix board_object from_row from_col to_col
          else if to_col = from_col then
            check_vertical_path ix board_object from_row from_col to_row
          else if \<bar>to_col - from_col\<bar> = \<bar>to_row - from_row\<bar> then
            check_diagonal_path ix board_object from_row from_col to_row to_col
          else Inr False)"

definition Knight_is_valid_move ::
  "subscript \<Rightarrow> piece \<Rightarrow> chess_board \<Rightarrow> color \<Rightarrow> int \<Rightarrow> int \<Rightarrow> int \<Rightarrow> int \<Rightarrow> py_error + bool" where
  "Knight_is_valid_move ix self board_object turn from_row from_col to_row to_col =
     (case Piece_is_valid_move ix self board_object turn from_row from_col to_row to_col of
        Inl e \<Rightarrow> Inl e
      | Inr ok \<Rightarrow>
          if \<not> ok then Inr False
          else if \<bar>to_row - from_row\<bar> = 1 \<and> \<bar>to_col - from_col\<bar> = 2 then Inr True
          else if \<bar>to_row - from_row\<bar> = 2 \<and> \<bar>to_col - from_col\<bar> = 1 then Inr True
          else Inr False)"

text \<open>
  \<open>Pawn.is_valid_move\<close>. In each branch of the source the move is refused when a
  square that must be empty (or, for the diagonal step, occupied) is not; a branch that
  refuses nothing falls through to the final \<open>return True\<close>.
\<close>

definition Pawn_is_valid_move ::
  "subscript \<Rightarrow> piece \<Rightarrow> chess_board \<Rightarrow> color \<Rightarrow> int \<Rightarrow> int \<Rightarrow> int \<Rightarrow> int \<Rightarrow> py_error + bool" where
  "Pawn_is_valid_move ix self board_object turn from_row from_col to_row to_col =
     (case Piece_is_valid_move ix self board_object turn from_row from_col to_row to_col of
        Inl e \<Rightarrow> Inl e
      | Inr ok \<Rightarrow>
          if \<not> ok then Inr False
          else if turn = BLACK then
            (if from_row + 1 = to_row \<and> from_col = to_col then
               (case get_piece_at ix board_object to_row to_col of
                  Inl e \<Rightarrow> Inl e
                | Inr dest \<Rightarrow> if dest \<noteq> None then Inr False else Inr True)
             else if from_row = 1 \<and> to_row = 3 \<and> from_col = to_col then
               (case get_piece_at ix board_object (from_row + 1) to_col of
                  Inl e \<Rightarrow> Inl e
                | Inr mid \<Rightarrow>
                    if mid \<noteq> None then Inr False
                    else (case get_piece_at ix board_object to_row to_col of
                            Inl e \<Rightarrow> Inl e
                          | Inr dest \<Rightarrow> if dest \<noteq> None then Inr False else Inr True))
             else if from_row + 1 = to_row \<and> from_col + 1 = to_col
                     \<or> from_row + 1 = to_row \<and> from_col - 1 = to_col then
               (case get_piece_at ix board_object to_row to_col of
                  Inl e \<Rightarrow> Inl e
                | Inr dest \<Rightarrow> if dest = None then Inr False else Inr True)
             else Inr False)
          else
            (if from_row - 1 = to_row \<and> from_col = to_col then
               (case get_piece_at ix board_object to_row to_col of
                  Inl e \<Rightarrow> Inl e
                | Inr dest \<Rightarrow> if dest \<noteq> None then Inr False else Inr True)
             else if from_row = 6 \<and> to_row = 4 \<and> from_col = to_col then
               (case get_piece_at ix board_object (from_row - 1) to_col of
                  Inl e \<Rightarrow> Inl e
                | Inr mid \<Rightarrow>
                    if mid \<noteq> None then Inr False
                    else (case get_piece_at ix board_object to_row to_col of
                            Inl e \<Rightarrow> Inl e
                          | Inr dest \<Rightarrow> if dest \<noteq> None then Inr False else Inr True))
             else if from_row - 1 = to_row \<and> from_col + 1 = to_col
                     \<or> from_row - 1 = to_row \<and> from_col - 1 = to_col then
               (case get_piece_at ix board_object to_row to_col of
                  Inl e \<Rightarrow> Inl e
                | Inr dest \<Rightarrow> if dest = None then Inr False else Inr True)
             else Inr False))"

text \<open>
  \<open>piece.is_valid_move(...)\<close> as \<open>make_move\<close> calls it: the method of the class of
  the piece.
\<close>

definition is_valid_move ::
  "subscript \<Rightarrow> piece \<Rightarrow> chess_board \<Rightarrow> color \<Rightarrow> int \<Rightarrow> int \<Rightarrow> int \<Rightarrow> int \<Rightarrow> py_error + bool" where
  "is_valid_move ix self board_object turn from_row from_col to_row to_col =
     (case class_name self of
        King \<Rightarrow> King_is_valid_move ix self board_object turn from_row from_col to_row to_col
      | Queen \<Rightarrow> Queen_is_valid_move ix self board_object turn from_row from_col to_row to_col
      | Rook \<Rightarrow> Rook_is_valid_move ix self board_object turn from_row from_col to_row to_col
      | Bishop \<Rightarrow> Bishop_is_valid_move ix self board_object turn from_row from_col to_row to_col
      | Knight \<Rightarrow> Knight_is_valid_move ix self board_object turn from_row from_col to_row to_col
      | Pawn \<Rightarrow> Pawn_is_valid_move ix self board_object turn from_row from_col to_row to_col)"

subsection \<open>ChessVar\<close>

definition ChessVar_init :: chess_var where
  "ChessVar_init =
     \<lparr> game_board = ChessBoard_init, player_turn = WHITE, game_state = UNFINISHED \<rparr>"

definition set_player_turn :: "chess_var \<Rightarrow> chess_var" where
  "set_player_turn g =
     (if player_turn g = WHITE then g\<lparr>player_turn := BLACK\<rparr>
      else g\<lparr>player_turn := WHITE\<rparr>)"

text \<open>\<open>.values()\<close> of one colour's dictionary, in the order of its keys.\<close>

definition dict_values :: "(kind \<Rightarrow> int) \<Rightarrow> int list" where
  "dict_values d = map d [King, Queen, Rook, Bishop, Knight, Pawn]"

text \<open>
  \<open>set_game_state\<close>: two independent \<open>if\<close> statements, the white dictionary first,
  the black one second, so the second assignment wins when both hold.
\<close>

definition set_game_state :: "chess_var \<Rightarrow> chess_var" where
  "set_game_state g =
     (let white_pieces = dict_values (current_pieces_on_board (game_board g) WHITE);
          g1 = (if 0 \<in> set white_pieces then g\<lparr>game_state := BLACK_WON\<rparr> else g);
          black_pieces = dict_values (current_pieces_on_board (game_board g1) BLACK)
      in if 0 \<in> set black_pieces then g1\<lparr>game_state := WHITE_WON\<rparr> else g1)"

definition valid_letters :: "char list" where
  "valid_letters = ''ABCDEFGH''"

definition valid_numbers :: "char list" where
  "valid_numbers = ''12345678''"

text \<open>
  \<open>str.upper()\<close> on one character. A Python string is a sequence of code points; the
  model's \<open>char\<close> covers the first 256. The only code points whose upper case is one
  of \<open>A\<close> to \<open>H\<close> are \<open>a\<close> to \<open>h\<close> and \<open>A\<close> to \<open>H\<close> themselves, so every
  other character can stand for the code points the type leaves out: the source only
  ever asks whether the upper-cased character is one of the eight letters.
\<close>

definition upper :: "char \<Rightarrow> char" where
  "upper c =
     (case map_of (zip ''abcdefghijklmnopqrstuvwxyz'' ''ABCDEFGHIJKLMNOPQRSTUVWXYZ'') c of
        None \<Rightarrow> c
      | Some u \<Rightarrow> u)"

text \<open>
  The condition of the two \<open>if\<close> statements of \<open>is_valid_input\<close>,
  \<open>len(s) != 2 or s[0].upper() not in valid_letters or s[1] not in valid_numbers\<close>,
  with the left-to-right evaluation of \<open>or\<close>: a later disjunct is evaluated only when
  the earlier ones are false.
\<close>

definition square_is_malformed :: "subscript \<Rightarrow> string \<Rightarrow> py_error + bool" where
  "square_is_malformed ix s =
     (if length s \<noteq> 2 then Inr True
      else case py_index ix s 0 of
             Inl e \<Rightarrow> Inl e
           | Inr c0 \<Rightarrow>
               if upper c0 \<notin> set valid_letters then Inr True
               else (case py_index ix s 1 of
                       Inl e \<Rightarrow> Inl e
                     | Inr c1 \<Rightarrow> Inr (c1 \<notin> set valid_numbers)))"

definition is_valid_input :: "subscript \<Rightarrow> string \<Rightarrow> string \<Rightarrow> py_error + bool" where
  "is_valid_input ix from_square to_square =
     (if from_square = to_square then Inr False
      else case square_is_malformed ix from_square of
             Inl e \<Rightarrow> Inl e
           | Inr bad_from \<Rightarrow>
               if bad_from then Inr False
               else (case square_is_malformed ix to_square of
                       Inl e \<Rightarrow> Inl e
                     | Inr bad_to \<Rightarrow> if bad_to then Inr False else Inr True))"

definition letter_to_index :: "char \<rightharpoonup> int" where
  "letter_to_index =
     map_of [(CHR ''A'', 0), (CHR ''B'', 1), (CHR ''C'', 2), (CHR ''D'', 3),
             (CHR ''E'', 4), (CHR ''F'', 5), (CHR ''G'', 6), (CHR ''H'', 7)]"

definition number_to_index :: "char \<rightharpoonup> int" where
  "number_to_index =
     map_of [(CHR ''8'', 0), (CHR ''7'', 1), (CHR ''6'', 2), (CHR ''5'', 3),
             (CHR ''4'', 4), (CHR ''3'', 5), (CHR ''2'', 6), (CHR ''1'', 7)]"

text \<open>
  \<open>algebraic_to_indices\<close>: the column is looked up first, then the row; a missing
  key raises \<open>KeyError\<close>. The result is the pair (row, column).
\<close>

definition algebraic_to_indices :: "subscript \<Rightarrow> string \<Rightarrow> py_error + (int \<times> int)" where
  "algebraic_to_indices ix square =
     (case py_index ix square 0 of
        Inl e \<Rightarrow> Inl e
      | Inr c0 \<Rightarrow>
          (case letter_to_index (upper c0) of
             None \<Rightarrow> Inl KeyError
           | Some col_index \<Rightarrow>
               (case py_index ix square 1 of
                  Inl e \<Rightarrow> Inl e
                | Inr c1 \<Rightarrow>
                    (case number_to_index c1 of
                       None \<Rightarrow> Inl KeyError
                     | Some row_index \<Rightarrow> Inr (row_index, col_index)))))"

text \<open>
  \<open>make_move\<close>: the returned boolean together with the game after the call. A
  rejection returns before anything is assigned.
\<close>

definition make_move ::
  "subscript \<Rightarrow> chess_var \<Rightarrow> string \<Rightarrow> string \<Rightarrow> py_error + (bool \<times> chess_var)" where
  "make_move ix g from_square to_square =
     (if game_state g \<noteq> UNFINISHED then Inr (False, g)
      else case is_valid_input ix from_square to_square of
        Inl e \<Rightarrow> Inl e
      | Inr valid \<Rightarrow>
          if \<not> valid then Inr (False, g)
          else (case algebraic_to_indices ix from_square of
            Inl e \<Rightarrow> Inl e
          | Inr (from_row, from_col) \<Rightarrow>
              (case algebraic_to_indices ix to_square of
                 Inl e \<Rightarrow> Inl e
               | Inr (to_row, to_col) \<Rightarrow>
                   (case get_piece_at ix (game_board g) from_row from_col of
                      Inl e \<Rightarrow> Inl e
                    | Inr None \<Rightarrow> Inr (False, g)
                    | Inr (Some piece_to_move) \<Rightarrow>
                        (case is_valid_move ix piece_to_move (game_board g) (player_turn g)
                                from_row from_col to_row to_col of
                           Inl e \<Rightarrow> Inl e
                         | Inr legal \<Rightarrow>
                             if \<not> legal then Inr (False, g)
                             else (case move_piece ix (game_board g)
                                          from_row from_col to_row to_col of
                                     Inl e \<Rightarrow> Inl e
                                   | Inr b' \<Rightarrow>
                                       Inr (True,
                                            set_player_turn
                                              (set_game_state (g\<lparr>game_board := b'\<rparr>)))))))))"

text \<open>
  A sequence of \<open>make_move\<close> calls on one game: the boolean and the game after each
  call, in order.
\<close>

fun play ::
  "subscript \<Rightarrow> chess_var \<Rightarrow> (string \<times> string) list \<Rightarrow> py_error + (bool \<times> chess_var) list" where
  "play ix g [] = Inr []"
| "play ix g ((from_square, to_square) # ms) =
     (case make_move ix g from_square to_square of
        Inl e \<Rightarrow> Inl e
      | Inr (r, g') \<Rightarrow>
          (case play ix g' ms of
             Inl e \<Rightarrow> Inl e
           | Inr rest \<Rightarrow> Inr ((r, g') # rest)))"

text \<open>
  What a caller observes of each call of a sequence: the returned boolean, and the
  player turn and the game state after the call.
\<close>

definition outcome :: "bool \<times> chess_var \<Rightarrow> bool \<times> color \<times> state" where
  "outcome x = (fst x, player_turn (snd x), game_state (snd x))"

definition play_log ::
  "subscript \<Rightarrow> chess_var \<Rightarrow> (string \<times> string) list \<Rightarrow> py_error + (bool \<times> color \<times> state) list" where
  "play_log ix g ms = map_sum id (map outcome) (play ix g ms)"

text \<open>The game states a program can be in: a fresh game, and the result of any call.\<close>

inductive reachable :: "chess_var \<Rightarrow> bool" where
  fresh: "reachable ChessVar_init"
| step: "reachable g \<Longrightarrow> make_move Python g from_square to_square = Inr (r, g')
           \<Longrightarrow> reachable g'"

text \<open>The shape the constructor gives the grid: eight rows of eight cells.\<close>

definition wf_board :: "chess_board \<Rightarrow> bool" where
  "wf_board b \<longleftrightarrow> length (board b) = 8 \<and> (\<forall>r \<in> set (board b). length r = 8)"

text \<open>The number of cells of the grid that hold a piece of colour \<open>c\<close> and class \<open>k\<close>.\<close>

definition pieces_on_grid :: "chess_board \<Rightarrow> color \<Rightarrow> kind \<Rightarrow> nat" where
  "pieces_on_grid b c k = sum_list (map (\<lambda>r. count_list r (Some (Piece c k))) (board b))"

subsection \<open>Example positions\<close>

text \<open>The position after White's \<open>e2\<close> to \<open>e4\<close>, White's king free to step to \<open>e2\<close>.\<close>

definition position_after_e4 :: chess_board where
  "position_after_e4 = ChessBoard_init \<lparr> board :=
     (board ChessBoard_init)
       [4 := [None, None, None, None, Some (Piece WHITE Pawn), None, None, None],
        6 := [Some (Piece WHITE Pawn), Some (Piece WHITE Pawn), Some (Piece WHITE Pawn),
              Some (Piece WHITE Pawn), None, Some (Piece WHITE Pawn),
              Some (Piece WHITE Pawn), Some (Piece WHITE Pawn)]] \<rparr>"

text \<open>
  A short game, reached by play from the fresh game: after these four moves White's
  queen on \<open>h5\<close> attacks Black's king on \<open>e8\<close> along an open diagonal.
\<close>

definition winning_line :: "(string \<times> string) list" where
  "winning_line = [(''e2'', ''e4''), (''f7'', ''f6''), (''d1'', ''h5''), (''a7'', ''a6'')]"

definition game_before_capture :: chess_var where
  "game_before_capture =
     (case play Python ChessVar_init winning_line of
        Inl e \<Rightarrow> ChessVar_init
      | Inr tr \<Rightarrow> snd (last tr))"

subsection \<open>The pawn rules of the specification\<close>

text \<open>
  The specification's words, for comparison with \<open>Pawn_is_valid_move\<close>: Black
  advances toward increasing rows and starts on row 1, White advances toward decreasing
  rows and starts on row 6. A single forward step needs an empty destination; a double
  forward step starts on the starting rank and needs the intermediate square and the
  destination empty; a diagonal forward step needs an opposing piece on the
  destination.
\<close>

definition spec_forward :: "color \<Rightarrow> int" where
  "spec_forward c = (if c = BLACK then 1 else - 1)"

definition spec_starting_rank :: "color \<Rightarrow> int" where
  "spec_starting_rank c = (if c = BLACK then 1 else 6)"

definition spec_pawn_single_step ::
  "subscript \<Rightarrow> chess_board \<Rightarrow> color \<Rightarrow> int \<Rightarrow> int \<Rightarrow> int \<Rightarrow> int \<Rightarrow> bool" where
  "spec_pawn_single_step ix b turn from_row from_col to_row to_col \<longleftrightarrow>
     to_col = from_col \<and> to_row = from_row + spec_forward turn
     \<and> get_piece_at ix b to_row to_col = Inr None"

definition spec_pawn_double_step ::
  "subscript \<Rightarrow> chess_board \<Rightarrow> color \<Rightarrow> int \<Rightarrow> int \<Rightarrow> int \<Rightarrow> int \<Rightarrow> bool" where
  "spec_pawn_double_step ix b turn from_row from_col to_row to_col \<longleftrightarrow>
     to_col = from_col \<and> from_row = spec_starting_rank turn
     \<and> to_row = from_row + 2 * spec_forward turn
     \<and> get_piece_at ix b (from_row + spec_forward turn) to_col = Inr None
     \<and> get_piece_at ix b to_row to_col = Inr None"

definition spec_pawn_diagonal_capture ::
  "subscript \<Rightarrow> chess_board \<Rightarrow> color \<Rightarrow> int \<Rightarrow> int \<Rightarrow> int \<Rightarrow> int \<Rightarrow> bool" where
  "spec_pawn_diagonal_capture ix b turn from_row from_col to_row to_col \<longleftrightarrow>
     \<bar>to_col - from_col\<bar> = 1 \<and> to_row = from_row + spec_forward turn
     \<and> (case get_piece_at ix b to_row to_col of
          Inr (Some q) \<Rightarrow> get_color q \<noteq> turn
        | _ \<Rightarrow> False)"

text \<open>
  The grid after \<open>e2\<close> to \<open>e4\<close> and \<open>d7\<close> to \<open>d5\<close>: White's pawn on \<open>e4\<close> can
  capture on \<open>d5\<close>, step to \<open>e5\<close>, and has nothing to capture on \<open>f5\<close>.
\<close>

definition position_after_e4_d5 :: chess_board where
  "position_after_e4_d5 =
     (case play Python ChessVar_init [(''e2'', ''e4''), (''d7'', ''d5'')] of
        Inl e \<Rightarrow> ChessBoard_init
      | Inr tr \<Rightarrow> game_board (snd (last tr)))"

definition exactly_one :: "bool \<Rightarrow> bool \<Rightarrow> bool \<Rightarrow> bool" where
  "exactly_one p q r \<longleftrightarrow> (p \<and> \<not> q \<and> \<not> r) \<or> (\<not> p \<and> q \<and> \<not> r) \<or> (\<not> p \<and> \<not> q \<and> r)"

text \<open>
  The grid after \<open>a2\<close> to \<open>a4\<close> and \<open>a7\<close> to \<open>a6\<close>: White's rook on \<open>a1\<close> has
  \<open>a2\<close> and \<open>a3\<close> free and its own pawn on \<open>a4\<close> in the way of \<open>a5\<close>.
\<close>

definition position_after_a4_a6 :: chess_board where
  "position_after_a4_a6 =
     (case play Python ChessVar_init [(''a2'', ''a4''), (''a7'', ''a6'')] of
        Inl e \<Rightarrow> ChessBoard_init
      | Inr tr \<Rightarrow> game_board (snd (last tr)))"

subsection \<open>Storing into a well-formed grid\<close>

text \<open>
  The grid with one cell replaced: what \<open>board_setitem\<close> returns when the row and
  column are on the board.
\<close>

definition put :: "chess_board \<Rightarrow> int \<Rightarrow> int \<Rightarrow> piece option \<Rightarrow> chess_board" where
  "put b r c v = b\<lparr>board := (board b)[nat r := (board b ! nat r)[nat c := v]]\<rparr>"

section \<open>Properties\<close>

subsection \<open>Reading a well-formed grid\<close>

lemma get_piece_at_wf:
  assumes "wf_board b" "0 \<le> r" "r < 8" "0 \<le> c" "c < 8"
  shows "get_piece_at ix b r c = Inr (board b ! nat r ! nat c)"
proof -
  have len: "length (board b) = 8" using assms(1) by (simp add: wf_board_def)
  have "nat r < length (board b)" using assms(2,3) len by simp
  then have "board b ! nat r \<in> set (board b)" by (rule nth_mem)
  then have "length (board b ! nat r) = 8" using assms(1) by (simp add: wf_board_def)
  then show ?thesis using assms(2-5) len
    by (simp add: get_piece_at_def py_index_def Let_def)
qed

subsection \<open>The king\<close>

text \<open>
  Claim C9. On an eight-by-eight grid, with both squares on the board and a king of the
  moving colour on the square moved from, \<open>King.is_valid_move\<close> returns \<open>True\<close>
  exactly when the destination holds no piece of the moving colour, the larger of the
  row and column distances is at most one, and the two squares differ.
\<close>

theorem King_is_valid_move_iff:
  assumes "wf_board b"
      and "0 \<le> from_row" "from_row < 8" "0 \<le> from_col" "from_col < 8"
      and "0 \<le> to_row" "to_row < 8" "0 \<le> to_col" "to_col < 8"
      and "get_piece_at ix b from_row from_col = Inr (Some self)"
      and "class_name self = King" and "get_color self = turn"
  shows "King_is_valid_move ix self b turn from_row from_col to_row to_col =
           Inr ((\<forall>q. get_piece_at ix b to_row to_col = Inr (Some q) \<longrightarrow> get_color q \<noteq> turn)
                \<and> max \<bar>to_row - from_row\<bar> \<bar>to_col - from_col\<bar> \<le> 1
                \<and> (from_row, from_col) \<noteq> (to_row, to_col))"
proof -
  have dest: "get_piece_at ix b to_row to_col = Inr (board b ! nat to_row ! nat to_col)"
    using assms(1,6-9) by (rule get_piece_at_wf)
  show ?thesis
  proof (cases "(from_row, from_col) = (to_row, to_col)")
    case True
    with assms(10) dest have "board b ! nat to_row ! nat to_col = Some self" by simp
    with True assms(12) dest show ?thesis
      by (simp add: King_is_valid_move_def Piece_is_valid_move_def)
  next
    case False
    with assms(12) dest show ?thesis
      by (auto simp: King_is_valid_move_def Piece_is_valid_move_def split: option.splits)
  qed
qed

theorem King_is_valid_move_iff_witness:
  "wf_board position_after_e4
   \<and> get_piece_at Python position_after_e4 7 4 = Inr (Some (Piece WHITE King))
   \<and> King_is_valid_move Python (Piece WHITE King) position_after_e4 WHITE 7 4 6 4 = Inr True
   \<and> King_is_valid_move Python (Piece WHITE King) position_after_e4 WHITE 7 4 7 3 = Inr False
   \<and> King_is_valid_move Python (Piece WHITE King) position_after_e4 WHITE 7 4 5 4 = Inr False"
proof -
  have wf: "wf_board position_after_e4" by code_simp
  have king: "get_piece_at Python position_after_e4 7 4 = Inr (Some (Piece WHITE King))"
    by code_simp
  have e2: "get_piece_at Python position_after_e4 6 4 = Inr None" by code_simp
  have d1: "get_piece_at Python position_after_e4 7 3 = Inr (Some (Piece WHITE Queen))"
    by code_simp
  have e3: "get_piece_at Python position_after_e4 5 4 = Inr None" by code_simp
  have "King_is_valid_move Python (Piece WHITE King) position_after_e4 WHITE 7 4 6 4 = Inr True"
    using King_is_valid_move_iff [OF wf _ _ _ _ _ _ _ _ king, of 6 4 WHITE] e2 by simp
  moreover
  have "King_is_valid_move Python (Piece WHITE King) position_after_e4 WHITE 7 4 7 3 = Inr False"
    using King_is_valid_move_iff [OF wf _ _ _ _ _ _ _ _ king, of 7 3 WHITE] d1 by simp
  moreover
  have "King_is_valid_move Python (Piece WHITE King) position_after_e4 WHITE 7 4 5 4 = Inr False"
    using King_is_valid_move_iff [OF wf _ _ _ _ _ _ _ _ king, of 5 4 WHITE] e3 by simp
  ultimately show ?thesis using wf king by simp
qed

subsection \<open>The outcomes of \<open>make_move\<close>\<close>

lemma make_move_applied:
  assumes "make_move ix g from_square to_square = Inr (True, g')"
  obtains from_row from_col to_row to_col p b'
  where "game_state g = UNFINISHED"
    and "is_valid_input ix from_square to_square = Inr True"
    and "algebraic_to_indices ix from_square = Inr (from_row, from_col)"
    and "algebraic_to_indices ix to_square = Inr (to_row, to_col)"
    and "get_piece_at ix (game_board g) from_row from_col = Inr (Some p)"
    and "is_valid_move ix p (game_board g) (player_turn g) from_row from_col to_row to_col
           = Inr True"
    and "move_piece ix (game_board g) from_row from_col to_row to_col = Inr b'"
    and "g' = set_player_turn (set_game_state (g\<lparr>game_board := b'\<rparr>))"
  using assms unfolding make_move_def
  by (auto split: if_splits sum.splits option.splits prod.splits)

lemma make_move_rejected:
  "make_move ix g from_square to_square = Inr (False, g') \<Longrightarrow> g' = g"
  unfolding make_move_def
  by (auto split: if_splits sum.splits option.splits prod.splits)

lemma make_move_finished:
  "game_state g \<noteq> UNFINISHED \<Longrightarrow> make_move ix g from_square to_square = Inr (False, g)"
  by (simp add: make_move_def)

lemma zero_in_dict_values: "0 \<in> set (dict_values d) \<longleftrightarrow> (\<exists>k. d k = 0)"
proof
  assume "0 \<in> set (dict_values d)"
  then show "\<exists>k. d k = 0" by (auto simp: dict_values_def)
next
  assume "\<exists>k. d k = 0"
  then obtain k where "d k = 0" ..
  then show "0 \<in> set (dict_values d)"
    by (cases k) (simp_all add: dict_values_def)
qed

lemma game_state_set_game_state:
  "game_state (set_game_state g) =
     (if \<exists>k. current_pieces_on_board (game_board g) BLACK k = 0 then WHITE_WON
      else if \<exists>k. current_pieces_on_board (game_board g) WHITE k = 0 then BLACK_WON
      else game_state g)"
  by (simp add: set_game_state_def Let_def zero_in_dict_values)

lemma game_board_set_game_state [simp]: "game_board (set_game_state g) = game_board g"
  by (simp add: set_game_state_def Let_def)

lemma player_turn_set_game_state [simp]: "player_turn (set_game_state g) = player_turn g"
  by (simp add: set_game_state_def Let_def)

lemma game_board_set_player_turn [simp]: "game_board (set_player_turn g) = game_board g"
  by (simp add: set_player_turn_def)

lemma game_state_set_player_turn [simp]: "game_state (set_player_turn g) = game_state g"
  by (simp add: set_player_turn_def)

lemma player_turn_set_player_turn:
  "player_turn (set_player_turn g) = (if player_turn g = WHITE then BLACK else WHITE)"
  by (simp add: set_player_turn_def)

subsection \<open>The game state after an applied move\<close>

text \<open>
  Claim C1. Whenever \<open>make_move\<close> returns \<open>True\<close>, the game state after the call
  is determined by the counts after the call: \<open>WHITE_WON\<close> if some count of Black is
  zero, otherwise \<open>BLACK_WON\<close> if some count of White is zero, otherwise
  \<open>UNFINISHED\<close>. This holds for every game in which a move is applied, reachable or
  not.
\<close>

theorem make_move_recomputes_game_state:
  assumes "make_move ix g from_square to_square = Inr (True, g')"
  shows "game_state g' =
     (if \<exists>k. current_pieces_on_board (game_board g') BLACK k = 0 then WHITE_WON
      else if \<exists>k. current_pieces_on_board (game_board g') WHITE k = 0 then BLACK_WON
      else UNFINISHED)"
  using assms
  by (elim make_move_applied) (simp add: game_state_set_game_state)

theorem make_move_recomputes_game_state_witness:
  "(\<exists>g'. make_move Python game_before_capture ''h5'' ''e8'' = Inr (True, g')
         \<and> current_pieces_on_board (game_board g') BLACK King = 0
         \<and> game_state g' = WHITE_WON)
   \<and> (\<exists>g'. make_move Python ChessVar_init ''e2'' ''e4'' = Inr (True, g')
         \<and> game_state g' = UNFINISHED)"
proof -
  let ?m = "make_move Python game_before_capture ''h5'' ''e8''"
  have "\<not> isl ?m \<and> fst (projr ?m)
        \<and> current_pieces_on_board (game_board (snd (projr ?m))) BLACK King = 0"
    by code_simp
  then obtain g' where m: "?m = Inr (True, g')"
    and z: "current_pieces_on_board (game_board g') BLACK King = 0"
    by (cases ?m) auto
  from z have "\<exists>k. current_pieces_on_board (game_board g') BLACK k = 0" ..
  with make_move_recomputes_game_state [OF m] have "game_state g' = WHITE_WON" by simp
  with m z have first: "\<exists>g'. ?m = Inr (True, g')
         \<and> current_pieces_on_board (game_board g') BLACK King = 0
         \<and> game_state g' = WHITE_WON" by blast
  let ?n = "make_move Python ChessVar_init ''e2'' ''e4''"
  have "\<not> isl ?n \<and> fst (projr ?n)
        \<and> list_all (\<lambda>c. list_all (\<lambda>k. current_pieces_on_board (game_board (snd (projr ?n))) c k \<noteq> 0)
             [King, Queen, Rook, Bishop, Knight, Pawn]) [WHITE, BLACK]"
    by code_simp
  then obtain h where n: "?n = Inr (True, h)"
    and nz: "list_all (\<lambda>c. list_all (\<lambda>k. current_pieces_on_board (game_board h) c k \<noteq> 0)
             [King, Queen, Rook, Bishop, Knight, Pawn]) [WHITE, BLACK]"
    by (cases ?n) auto
  have "current_pieces_on_board (game_board h) c k \<noteq> 0" for c k
    using nz by (cases c; cases k) simp_all
  with make_move_recomputes_game_state [OF n] have "game_state h = UNFINISHED" by simp
  with n have "\<exists>g'. ?n = Inr (True, g') \<and> game_state g' = UNFINISHED" by blast
  with first show ?thesis by blast
qed

subsection \<open>Rejected calls\<close>

text \<open>
  Claim C3. If \<open>make_move\<close> returns \<open>False\<close>, the game after the call is the game
  before it: the grid, the counts, the player turn and the game state are unchanged.
  Hence the same call made again is rejected again and leaves the same game.
\<close>

theorem rejection_changes_nothing:
  assumes "make_move ix g from_square to_square = Inr (False, g')"
  shows "g' = g
       \<and> board (game_board g') = board (game_board g)
       \<and> current_pieces_on_board (game_board g') = current_pieces_on_board (game_board g)
       \<and> player_turn g' = player_turn g
       \<and> game_state g' = game_state g
       \<and> make_move ix g' from_square to_square = Inr (False, g')"
proof -
  have "g' = g" using assms by (rule make_move_rejected)
  with assms show ?thesis by simp
qed

theorem rejection_changes_nothing_witness:
  "make_move Python ChessVar_init ''a2'' ''a5'' = Inr (False, ChessVar_init)
   \<and> make_move Python ChessVar_init '''' ''zz9'' = Inr (False, ChessVar_init)"
proof -
  let ?m = "make_move Python ChessVar_init ''a2'' ''a5''"
  have "\<not> isl ?m \<and> \<not> fst (projr ?m)" by code_simp
  then obtain g' where m: "?m = Inr (False, g')" by (cases ?m) auto
  from rejection_changes_nothing [OF m] m have a: "?m = Inr (False, ChessVar_init)" by simp
  let ?n = "make_move Python ChessVar_init '''' ''zz9''"
  have "\<not> isl ?n \<and> \<not> fst (projr ?n)" by code_simp
  then obtain h where n: "?n = Inr (False, h)" by (cases ?n) auto
  from rejection_changes_nothing [OF n] n have "?n = Inr (False, ChessVar_init)" by simp
  with a show ?thesis by simp
qed

subsection \<open>The game state over a sequence of calls\<close>

lemma play_finished:
  "game_state g \<noteq> UNFINISHED \<Longrightarrow> play ix g ms = Inr (replicate (length ms) (False, g))"
  by (induction ms) (auto simp: make_move_finished)

lemma play_shape:
  assumes "play ix g ms = Inr tr"
  shows "\<exists>pre post. tr = pre @ post
           \<and> (\<forall>x \<in> set pre. game_state (snd x) = UNFINISHED)
           \<and> (post = [] \<or> (\<exists>r gw n. game_state gw \<in> {WHITE_WON, BLACK_WON}
                   \<and> post = (r, gw) # replicate n (False, gw)))"
  using assms
proof (induction ms arbitrary: g tr)
  case Nil
  then show ?case by simp
next
  case (Cons m ms)
  obtain f t where m: "m = (f, t)" by (cases m)
  from Cons.prems m obtain r g' rest where
    mm: "make_move ix g f t = Inr (r, g')" and rest: "play ix g' ms = Inr rest"
    and tr: "tr = (r, g') # rest"
    by (auto split: sum.splits prod.splits)
  show ?case
  proof (cases "game_state g' = UNFINISHED")
    case True
    from Cons.IH [OF rest] obtain pre post where
      "rest = pre @ post" "\<forall>x \<in> set pre. game_state (snd x) = UNFINISHED"
      "post = [] \<or> (\<exists>r gw n. game_state gw \<in> {WHITE_WON, BLACK_WON}
                   \<and> post = (r, gw) # replicate n (False, gw))"
      by blast
    with True tr have "tr = ((r, g') # pre) @ post
       \<and> (\<forall>x \<in> set ((r, g') # pre). game_state (snd x) = UNFINISHED)
       \<and> (post = [] \<or> (\<exists>r gw n. game_state gw \<in> {WHITE_WON, BLACK_WON}
                   \<and> post = (r, gw) # replicate n (False, gw)))"
      by simp
    then show ?thesis by blast
  next
    case False
    then have won: "game_state g' \<in> {WHITE_WON, BLACK_WON}" by (cases "game_state g'") simp_all
    from False rest have "rest = replicate (length ms) (False, g')"
      by (simp add: play_finished)
    with tr have "tr = (r, g') # replicate (length ms) (False, g')" by simp
    with won have "tr = [] @ tr \<and> (\<forall>x \<in> set []. game_state (snd x) = UNFINISHED)
       \<and> (tr = [] \<or> (\<exists>r gw n. game_state gw \<in> {WHITE_WON, BLACK_WON}
                   \<and> tr = (r, gw) # replicate n (False, gw)))"
      by auto
    then show ?thesis by blast
  qed
qed

text \<open>
  Claim C5. The outcomes of any sequence of calls on a fresh game split into a first
  part, in which the game state after each call is \<open>UNFINISHED\<close>, and a rest that is
  either empty or starts with the call that sets the state to \<open>WHITE_WON\<close> or
  \<open>BLACK_WON\<close> and continues with calls that all return \<open>False\<close> and leave that
  very game: the state changes at most once, away from \<open>UNFINISHED\<close>, and never
  again. Every call on a game whose state is not \<open>UNFINISHED\<close> returns \<open>False\<close>
  and changes nothing.
\<close>

theorem game_state_changes_at_most_once:
  assumes "play ix ChessVar_init ms = Inr tr"
  shows "(\<exists>pre post. tr = pre @ post
           \<and> (\<forall>x \<in> set pre. game_state (snd x) = UNFINISHED)
           \<and> (post = [] \<or> (\<exists>r gw n. game_state gw \<in> {WHITE_WON, BLACK_WON}
                   \<and> post = (r, gw) # replicate n (False, gw))))
       \<and> (\<forall>g from_square to_square. game_state g \<noteq> UNFINISHED \<longrightarrow>
             make_move ix g from_square to_square = Inr (False, g))"
  using play_shape [OF assms] make_move_finished by blast

theorem game_state_changes_at_most_once_witness:
  "play_log Python ChessVar_init
     [(''e2'', ''e4''), (''f7'', ''f6''), (''d1'', ''h5''), (''a7'', ''a6''), (''h5'', ''e8''),
      (''a6'', ''a5''), (''e8'', ''d8'')]
   = Inr [(True, BLACK, UNFINISHED), (True, WHITE, UNFINISHED), (True, BLACK, UNFINISHED),
          (True, WHITE, UNFINISHED), (True, BLACK, WHITE_WON), (False, BLACK, WHITE_WON),
          (False, BLACK, WHITE_WON)]
   \<and> (\<exists>tr pre post. play Python ChessVar_init
          [(''e2'', ''e4''), (''f7'', ''f6''), (''d1'', ''h5''), (''a7'', ''a6''), (''h5'', ''e8''),
           (''a6'', ''a5''), (''e8'', ''d8'')] = Inr tr
        \<and> tr = pre @ post
        \<and> (\<forall>x \<in> set pre. game_state (snd x) = UNFINISHED)
        \<and> (post = [] \<or> (\<exists>r gw n. game_state gw \<in> {WHITE_WON, BLACK_WON}
                \<and> post = (r, gw) # replicate n (False, gw))))"
proof -
  let ?ms = "[(''e2'', ''e4''), (''f7'', ''f6''), (''d1'', ''h5''), (''a7'', ''a6''),
              (''h5'', ''e8''), (''a6'', ''a5''), (''e8'', ''d8'')]"
  have log: "play_log Python ChessVar_init ?ms
     = Inr [(True, BLACK, UNFINISHED), (True, WHITE, UNFINISHED), (True, BLACK, UNFINISHED),
          (True, WHITE, UNFINISHED), (True, BLACK, WHITE_WON), (False, BLACK, WHITE_WON),
          (False, BLACK, WHITE_WON)]"
    by code_simp
  have "\<not> isl (play Python ChessVar_init ?ms)" by code_simp
  then obtain tr where tr: "play Python ChessVar_init ?ms = Inr tr"
    by (cases "play Python ChessVar_init ?ms") auto
  from game_state_changes_at_most_once [OF tr] tr log show ?thesis by blast
qed

subsection \<open>The player turn after an applied move\<close>

text \<open>
  Claim C6 says that a move that ends the game leaves the player turn unchanged. The
  source calls \<open>set_player_turn\<close> after every applied move, with no test of the game
  state. In the game below White's fifth call captures Black's king: it returns
  \<open>True\<close>, the state becomes \<open>WHITE_WON\<close>, and the turn, \<open>WHITE\<close> before the
  call, is \<open>BLACK\<close> after it.
\<close>

theorem turn_kept_on_win_counterexample:
  "play_log Python ChessVar_init
     [(''e2'', ''e4''), (''f7'', ''f6''), (''d1'', ''h5''), (''a7'', ''a6''), (''h5'', ''e8'')]
   = Inr [(True, BLACK, UNFINISHED), (True, WHITE, UNFINISHED), (True, BLACK, UNFINISHED),
          (True, WHITE, UNFINISHED), (True, BLACK, WHITE_WON)]"
  by code_simp

text \<open>
  Claim C6, amended. After every applied move the player turn is the other colour,
  whether the game state after the move is \<open>UNFINISHED\<close> or a win.
\<close>

theorem applied_move_flips_turn:
  assumes "make_move ix g from_square to_square = Inr (True, g')"
  shows "player_turn g' = (if player_turn g = WHITE then BLACK else WHITE)"
  using assms
  by (elim make_move_applied) (simp add: player_turn_set_player_turn)

theorem applied_move_flips_turn_witness:
  "player_turn game_before_capture = WHITE
   \<and> (\<exists>g'. make_move Python game_before_capture ''h5'' ''e8'' = Inr (True, g')
          \<and> game_state g' = WHITE_WON \<and> player_turn g' = BLACK)"
proof -
  let ?m = "make_move Python game_before_capture ''h5'' ''e8''"
  have w: "player_turn game_before_capture = WHITE" by code_simp
  have "\<not> isl ?m \<and> fst (projr ?m) \<and> game_state (snd (projr ?m)) = WHITE_WON"
    by code_simp
  then obtain g' where m: "?m = Inr (True, g')" and s: "game_state g' = WHITE_WON"
    by (cases ?m) auto
  from applied_move_flips_turn [OF m] w have "player_turn g' = BLACK" by simp
  with w m s show ?thesis by blast
qed

subsection \<open>The pawn\<close>

text \<open>
  Claim C7. On an eight-by-eight grid, with both squares on the board, a pawn of the
  moving colour on the square moved from and the shared colour check passed,
  \<open>Pawn.is_valid_move\<close> returns \<open>True\<close> exactly when exactly one of the three
  rules of the specification holds: the single forward step onto an empty square, the
  double forward step from the starting rank over an empty square onto an empty square,
  or the diagonal forward step onto an opposing piece. Every other move is refused.
\<close>

theorem Pawn_is_valid_move_iff:
  assumes wf: "wf_board b"
      and fr: "0 \<le> from_row" "from_row < 8" and fc: "0 \<le> from_col" "from_col < 8"
      and tr: "0 \<le> to_row" "to_row < 8" and tc: "0 \<le> to_col" "to_col < 8"
      and self: "get_piece_at ix b from_row from_col = Inr (Some self)"
      and pawn: "class_name self = Pawn" and col: "get_color self = turn"
      and pre: "Piece_is_valid_move ix self b turn from_row from_col to_row to_col = Inr True"
  shows "Pawn_is_valid_move ix self b turn from_row from_col to_row to_col =
           Inr (exactly_one
                  (spec_pawn_single_step ix b turn from_row from_col to_row to_col)
                  (spec_pawn_double_step ix b turn from_row from_col to_row to_col)
                  (spec_pawn_diagonal_capture ix b turn from_row from_col to_row to_col))"
proof -
  obtain d where d: "get_piece_at ix b to_row to_col = Inr d"
    using get_piece_at_wf [OF wf tr tc] by blast
  have own: "\<And>q. d = Some q \<Longrightarrow> get_color q \<noteq> turn"
    using pre d by (auto simp: Piece_is_valid_move_def split: if_splits)
  show ?thesis
  proof (cases turn)
    case BLACK
    obtain m where m: "from_row = 1 \<Longrightarrow> get_piece_at ix b (from_row + 1) to_col = Inr m"
      using get_piece_at_wf [OF wf _ _ tc, of "from_row + 1"] by (cases "from_row = 1") auto
    show ?thesis using BLACK pre d m own
      by (cases d; cases m)
         (auto simp: Pawn_is_valid_move_def exactly_one_def spec_pawn_single_step_def
            spec_pawn_double_step_def spec_pawn_diagonal_capture_def spec_forward_def
            spec_starting_rank_def)
  next
    case WHITE
    obtain m where m: "from_row = 6 \<Longrightarrow> get_piece_at ix b (from_row - 1) to_col = Inr m"
      using get_piece_at_wf [OF wf _ _ tc, of "from_row - 1"] by (cases "from_row = 6") auto
    show ?thesis using WHITE pre d m own
      by (cases d; cases m)
         (auto simp: Pawn_is_valid_move_def exactly_one_def spec_pawn_single_step_def
            spec_pawn_double_step_def spec_pawn_diagonal_capture_def spec_forward_def
            spec_starting_rank_def)
  qed
qed

theorem Pawn_is_valid_move_iff_witness:
  "Pawn_is_valid_move Python (Piece WHITE Pawn) position_after_e4_d5 WHITE 4 4 3 3 = Inr True
   \<and> Pawn_is_valid_move Python (Piece WHITE Pawn) position_after_e4_d5 WHITE 4 4 3 4 = Inr True
   \<and> Pawn_is_valid_move Python (Piece WHITE Pawn) position_after_e4_d5 WHITE 4 4 3 5 = Inr False
   \<and> Pawn_is_valid_move Python (Piece WHITE Pawn) position_after_e4_d5 WHITE 6 0 4 0 = Inr True
   \<and> Pawn_is_valid_move Python (Piece WHITE Pawn) position_after_e4_d5 WHITE 6 0 3 0 = Inr False"
proof -
  let ?b = position_after_e4_d5 and ?p = "Piece WHITE Pawn"
  have wf: "wf_board ?b" by code_simp
  have e4: "get_piece_at Python ?b 4 4 = Inr (Some ?p)" by code_simp
  have a2: "get_piece_at Python ?b 6 0 = Inr (Some ?p)" by code_simp
  have pre1: "Piece_is_valid_move Python ?p ?b WHITE 4 4 3 3 = Inr True" by code_simp
  have pre2: "Piece_is_valid_move Python ?p ?b WHITE 4 4 3 4 = Inr True" by code_simp
  have pre3: "Piece_is_valid_move Python ?p ?b WHITE 4 4 3 5 = Inr True" by code_simp
  have pre4: "Piece_is_valid_move Python ?p ?b WHITE 6 0 4 0 = Inr True" by code_simp
  have pre5: "Piece_is_valid_move Python ?p ?b WHITE 6 0 3 0 = Inr True" by code_simp
  have r1: "exactly_one (spec_pawn_single_step Python ?b WHITE 4 4 3 3)
              (spec_pawn_double_step Python ?b WHITE 4 4 3 3)
              (spec_pawn_diagonal_capture Python ?b WHITE 4 4 3 3)" by code_simp
  have r2: "exactly_one (spec_pawn_single_step Python ?b WHITE 4 4 3 4)
              (spec_pawn_double_step Python ?b WHITE 4 4 3 4)
              (spec_pawn_diagonal_capture Python ?b WHITE 4 4 3 4)" by code_simp
  have r3: "\<not> exactly_one (spec_pawn_single_step Python ?b WHITE 4 4 3 5)
              (spec_pawn_double_step Python ?b WHITE 4 4 3 5)
              (spec_pawn_diagonal_capture Python ?b WHITE 4 4 3 5)" by code_simp
  have r4: "exactly_one (spec_pawn_single_step Python ?b WHITE 6 0 4 0)
              (spec_pawn_double_step Python ?b WHITE 6 0 4 0)
              (spec_pawn_diagonal_capture Python ?b WHITE 6 0 4 0)" by code_simp
  have r5: "\<not> exactly_one (spec_pawn_single_step Python ?b WHITE 6 0 3 0)
              (spec_pawn_double_step Python ?b WHITE 6 0 3 0)
              (spec_pawn_diagonal_capture Python ?b WHITE 6 0 3 0)" by code_simp
  have "Pawn_is_valid_move Python ?p ?b WHITE 4 4 3 3 = Inr True"
    using Pawn_is_valid_move_iff [OF wf _ _ _ _ _ _ _ _ e4 _ _ pre1] r1 by simp
  moreover have "Pawn_is_valid_move Python ?p ?b WHITE 4 4 3 4 = Inr True"
    using Pawn_is_valid_move_iff [OF wf _ _ _ _ _ _ _ _ e4 _ _ pre2] r2 by simp
  moreover have "Pawn_is_valid_move Python ?p ?b WHITE 4 4 3 5 = Inr False"
    using Pawn_is_valid_move_iff [OF wf _ _ _ _ _ _ _ _ e4 _ _ pre3] r3 by simp
  moreover have "Pawn_is_valid_move Python ?p ?b WHITE 6 0 4 0 = Inr True"
    using Pawn_is_valid_move_iff [OF wf _ _ _ _ _ _ _ _ a2 _ _ pre4] r4 by simp
  moreover have "Pawn_is_valid_move Python ?p ?b WHITE 6 0 3 0 = Inr False"
    using Pawn_is_valid_move_iff [OF wf _ _ _ _ _ _ _ _ a2 _ _ pre5] r5 by simp
  ultimately show ?thesis by simp
qed

subsection \<open>The path checks on a well-formed grid\<close>

text \<open>
  Each loop visits the squares between its start and its destination in order and
  returns whether all of them are empty; \<open>k\<close> counts the steps from the start.
\<close>

lemma between_shift:
  "(\<forall>k::int. 0 < k \<and> k < n \<longrightarrow> P k) \<longleftrightarrow>
     (n \<le> 1 \<or> (P 1 \<and> (\<forall>k. 0 < k \<and> k < n - 1 \<longrightarrow> P (k + 1))))"
proof
  assume l: "\<forall>k. 0 < k \<and> k < n \<longrightarrow> P k"
  show "n \<le> 1 \<or> (P 1 \<and> (\<forall>k. 0 < k \<and> k < n - 1 \<longrightarrow> P (k + 1)))"
  proof (cases "n \<le> 1")
    case True then show ?thesis ..
  next
    case False
    then have "P 1" using l by simp
    moreover have "\<forall>k. 0 < k \<and> k < n - 1 \<longrightarrow> P (k + 1)" using l by simp
    ultimately show ?thesis by blast
  qed
next
  assume r: "n \<le> 1 \<or> (P 1 \<and> (\<forall>k. 0 < k \<and> k < n - 1 \<longrightarrow> P (k + 1)))"
  show "\<forall>k. 0 < k \<and> k < n \<longrightarrow> P k"
  proof (intro allI impI)
    fix k assume k: "0 < k \<and> k < n"
    then have "\<not> n \<le> 1" by arith
    with r have p1: "P 1" and rest: "\<forall>k. 0 < k \<and> k < n - 1 \<longrightarrow> P (k + 1)" by blast+
    show "P k"
    proof (cases "k = 1")
      case True with p1 show ?thesis by simp
    next
      case False
      with k have "0 < k - 1 \<and> k - 1 < n - 1" by arith
      with rest have "P (k - 1 + 1)" by blast
      then show ?thesis by simp
    qed
  qed
qed

lemma horizontal_right_loop_wf:
  "wf_board b \<Longrightarrow> 0 \<le> r \<Longrightarrow> r < 8 \<Longrightarrow> 0 \<le> c \<Longrightarrow> c < t \<Longrightarrow> t \<le> 8 \<Longrightarrow>
     horizontal_right_loop ix b r c t =
       Inr (\<forall>k. 0 < k \<and> k < t - c \<longrightarrow> get_piece_at ix b r (c + k) = Inr None)"
proof (induction ix b r c t rule: horizontal_right_loop.induct)
  case (1 ix b r c t)
  note wf = \<open>wf_board b\<close>
  let ?Q = "\<lambda>k. get_piece_at ix b r (c + k) = Inr None"
  show ?case
  proof (cases "c + 1 = t")
    case True
    then have "t - c = 1" by simp
    with True show ?thesis by (subst horizontal_right_loop.simps) auto
  next
    case False
    with "1.prems" have rng: "0 \<le> r" "r < 8" "0 \<le> c + 1" "c + 1 < 8" by simp_all
    obtain v where v: "get_piece_at ix b r (c + 1) = Inr v"
      using get_piece_at_wf [OF wf rng] by blast
    show ?thesis
    proof (cases v)
      case None
      have "horizontal_right_loop ix b r (c + 1) t =
        Inr (\<forall>k. 0 < k \<and> k < t - c - 1 \<longrightarrow> ?Q (k + 1))"
        using "1.IH" [OF False v None] "1.prems" False by (simp add: algebra_simps)
      moreover have "(\<forall>k. 0 < k \<and> k < t - c \<longrightarrow> ?Q k) \<longleftrightarrow>
            (\<forall>k. 0 < k \<and> k < t - c - 1 \<longrightarrow> ?Q (k + 1))"
        using between_shift [of "t - c" ?Q] v None False "1.prems" by simp
      ultimately show ?thesis using False v None
        by (subst horizontal_right_loop.simps) simp
    next
      case (Some p)
      have "\<not> (\<forall>k. 0 < k \<and> k < t - c \<longrightarrow> ?Q k)"
        using v Some False "1.prems" by (auto intro!: exI [of _ 1])
      then show ?thesis using False v Some
        by (subst horizontal_right_loop.simps) simp
    qed
  qed
qed

lemma horizontal_left_loop_wf:
  "wf_board b \<Longrightarrow> 0 \<le> r \<Longrightarrow> r < 8 \<Longrightarrow> c < 8 \<Longrightarrow> t < c \<Longrightarrow> - 1 \<le> t \<Longrightarrow>
     horizontal_left_loop ix b r c t =
       Inr (\<forall>k. 0 < k \<and> k < c - t \<longrightarrow> get_piece_at ix b r (c - k) = Inr None)"
proof (induction ix b r c t rule: horizontal_left_loop.induct)
  case (1 ix b r c t)
  note wf = \<open>wf_board b\<close>
  let ?Q = "\<lambda>k. get_piece_at ix b r (c - k) = Inr None"
  show ?case
  proof (cases "c - 1 = t")
    case True
    then have "c - t = 1" by simp
    with True show ?thesis by (subst horizontal_left_loop.simps) auto
  next
    case False
    with "1.prems" have rng: "0 \<le> r" "r < 8" "0 \<le> c - 1" "c - 1 < 8" by simp_all
    obtain v where v: "get_piece_at ix b r (c - 1) = Inr v"
      using get_piece_at_wf [OF wf rng] by blast
    show ?thesis
    proof (cases v)
      case None
      have "horizontal_left_loop ix b r (c - 1) t =
        Inr (\<forall>k. 0 < k \<and> k < c - t - 1 \<longrightarrow> ?Q (k + 1))"
        using "1.IH" [OF False v None] "1.prems" False by (simp add: algebra_simps)
      moreover have "(\<forall>k. 0 < k \<and> k < c - t \<longrightarrow> ?Q k) \<longleftrightarrow>
            (\<forall>k. 0 < k \<and> k < c - t - 1 \<longrightarrow> ?Q (k + 1))"
        using between_shift [of "c - t" ?Q] v None False "1.prems" by simp
      ultimately show ?thesis using False v None
        by (subst horizontal_left_loop.simps) simp
    next
      case (Some p)
      have "\<not> (\<forall>k. 0 < k \<and> k < c - t \<longrightarrow> ?Q k)"
        using v Some False "1.prems" by (auto intro!: exI [of _ 1])
      then show ?thesis using False v Some
        by (subst horizontal_left_loop.simps) simp
    qed
  qed
qed

lemma vertical_down_loop_wf:
  "wf_board b \<Longrightarrow> 0 \<le> c \<Longrightarrow> c < 8 \<Longrightarrow> 0 \<le> r \<Longrightarrow> r < t \<Longrightarrow> t \<le> 8 \<Longrightarrow>
     vertical_down_loop ix b r c t =
       Inr (\<forall>k. 0 < k \<and> k < t - r \<longrightarrow> get_piece_at ix b (r + k) c = Inr None)"
proof (induction ix b r c t rule: vertical_down_loop.induct)
  case (1 ix b r c t)
  note wf = \<open>wf_board b\<close>
  let ?Q = "\<lambda>k. get_piece_at ix b (r + k) c = Inr None"
  show ?case
  proof (cases "r + 1 = t")
    case True
    then have "t - r = 1" by simp
    with True show ?thesis by (subst vertical_down_loop.simps) auto
  next
    case False
    with "1.prems" have rng: "0 \<le> r + 1" "r + 1 < 8" "0 \<le> c" "c < 8" by simp_all
    obtain v where v: "get_piece_at ix b (r + 1) c = Inr v"
      using get_piece_at_wf [OF wf rng] by blast
    show ?thesis
    proof (cases v)
      case None
      have "vertical_down_loop ix b (r + 1) c t =
        Inr (\<forall>k. 0 < k \<and> k < t - r - 1 \<longrightarrow> ?Q (k + 1))"
        using "1.IH" [OF False v None] "1.prems" False by (simp add: algebra_simps)
      moreover have "(\<forall>k. 0 < k \<and> k < t - r \<longrightarrow> ?Q k) \<longleftrightarrow>
            (\<forall>k. 0 < k \<and> k < t - r - 1 \<longrightarrow> ?Q (k + 1))"
        using between_shift [of "t - r" ?Q] v None False "1.prems" by simp
      ultimately show ?thesis using False v None
        by (subst vertical_down_loop.simps) simp
    next
      case (Some p)
      have "\<not> (\<forall>k. 0 < k \<and> k < t - r \<longrightarrow> ?Q k)"
        using v Some False "1.prems" by (auto intro!: exI [of _ 1])
      then show ?thesis using False v Some
        by (subst vertical_down_loop.simps) simp
    qed
  qed
qed

lemma vertical_up_loop_wf:
  "wf_board b \<Longrightarrow> 0 \<le> c \<Longrightarrow> c < 8 \<Longrightarrow> r < 8 \<Longrightarrow> t < r \<Longrightarrow> - 1 \<le> t \<Longrightarrow>
     vertical_up_loop ix b r c t =
       Inr (\<forall>k. 0 < k \<and> k < r - t \<longrightarrow> get_piece_at ix b (r - k) c = Inr None)"
proof (induction ix b r c t rule: vertical_up_loop.induct)
  case (1 ix b r c t)
  note wf = \<open>wf_board b\<close>
  let ?Q = "\<lambda>k. get_piece_at ix b (r - k) c = Inr None"
  show ?case
  proof (cases "r - 1 = t")
    case True
    then have "r - t = 1" by simp
    with True show ?thesis by (subst vertical_up_loop.simps) auto
  next
    case False
    with "1.prems" have rng: "0 \<le> r - 1" "r - 1 < 8" "0 \<le> c" "c < 8" by simp_all
    obtain v where v: "get_piece_at ix b (r - 1) c = Inr v"
      using get_piece_at_wf [OF wf rng] by blast
    show ?thesis
    proof (cases v)
      case None
      have "vertical_up_loop ix b (r - 1) c t =
        Inr (\<forall>k. 0 < k \<and> k < r - t - 1 \<longrightarrow> ?Q (k + 1))"
        using "1.IH" [OF False v None] "1.prems" False by (simp add: algebra_simps)
      moreover have "(\<forall>k. 0 < k \<and> k < r - t \<longrightarrow> ?Q k) \<longleftrightarrow>
            (\<forall>k. 0 < k \<and> k < r - t - 1 \<longrightarrow> ?Q (k + 1))"
        using between_shift [of "r - t" ?Q] v None False "1.prems" by simp
      ultimately show ?thesis using False v None
        by (subst vertical_up_loop.simps) simp
    next
      case (Some p)
      have "\<not> (\<forall>k. 0 < k \<and> k < r - t \<longrightarrow> ?Q k)"
        using v Some False "1.prems" by (auto intro!: exI [of _ 1])
      then show ?thesis using False v Some
        by (subst vertical_up_loop.simps) simp
    qed
  qed
qed

lemma diagonal_up_right_loop_wf:
  "wf_board b \<Longrightarrow> 0 \<le> c \<Longrightarrow> c < t \<Longrightarrow> t \<le> 8 \<Longrightarrow> r < 8 \<Longrightarrow> - 1 \<le> r - (t - c) \<Longrightarrow>
     diagonal_up_right_loop ix b r c t =
       Inr (\<forall>k. 0 < k \<and> k < t - c \<longrightarrow> get_piece_at ix b (r - k) (c + k) = Inr None)"
proof (induction ix b r c t rule: diagonal_up_right_loop.induct)
  case (1 ix b r c t)
  note wf = \<open>wf_board b\<close>
  let ?Q = "\<lambda>k. get_piece_at ix b (r - k) (c + k) = Inr None"
  show ?case
  proof (cases "c + 1 = t")
    case True
    then have "t - c = 1" by simp
    with True show ?thesis by (subst diagonal_up_right_loop.simps) auto
  next
    case False
    with "1.prems" have rng: "0 \<le> r - 1" "r - 1 < 8" "0 \<le> c + 1" "c + 1 < 8" by simp_all
    obtain v where v: "get_piece_at ix b (r - 1) (c + 1) = Inr v"
      using get_piece_at_wf [OF wf rng] by blast
    show ?thesis
    proof (cases v)
      case None
      have "diagonal_up_right_loop ix b (r - 1) (c + 1) t =
        Inr (\<forall>k. 0 < k \<and> k < t - c - 1 \<longrightarrow> ?Q (k + 1))"
        using "1.IH" [OF False v None] "1.prems" False by (simp add: algebra_simps)
      moreover have "(\<forall>k. 0 < k \<and> k < t - c \<longrightarrow> ?Q k) \<longleftrightarrow>
            (\<forall>k. 0 < k \<and> k < t - c - 1 \<longrightarrow> ?Q (k + 1))"
        using between_shift [of "t - c" ?Q] v None False "1.prems" by simp
      ultimately show ?thesis using False v None
        by (subst diagonal_up_right_loop.simps) simp
    next
      case (Some p)
      have "\<not> (\<forall>k. 0 < k \<and> k < t - c \<longrightarrow> ?Q k)"
        using v Some False "1.prems" by (auto intro!: exI [of _ 1])
      then show ?thesis using False v Some
        by (subst diagonal_up_right_loop.simps) simp
    qed
  qed
qed

lemma diagonal_down_right_loop_wf:
  "wf_board b \<Longrightarrow> 0 \<le> c \<Longrightarrow> c < t \<Longrightarrow> t \<le> 8 \<Longrightarrow> 0 \<le> r \<Longrightarrow> r + (t - c) \<le> 8 \<Longrightarrow>
     diagonal_down_right_loop ix b r c t =
       Inr (\<forall>k. 0 < k \<and> k < t - c \<longrightarrow> get_piece_at ix b (r + k) (c + k) = Inr None)"
proof (induction ix b r c t rule: diagonal_down_right_loop.induct)
  case (1 ix b r c t)
  note wf = \<open>wf_board b\<close>
  let ?Q = "\<lambda>k. get_piece_at ix b (r + k) (c + k) = Inr None"
  show ?case
  proof (cases "c + 1 = t")
    case True
    then have "t - c = 1" by simp
    with True show ?thesis by (subst diagonal_down_right_loop.simps) auto
  next
    case False
    with "1.prems" have rng: "0 \<le> r + 1" "r + 1 < 8" "0 \<le> c + 1" "c + 1 < 8" by simp_all
    obtain v where v: "get_piece_at ix b (r + 1) (c + 1) = Inr v"
      using get_piece_at_wf [OF wf rng] by blast
    show ?thesis
    proof (cases v)
      case None
      have "diagonal_down_right_loop ix b (r + 1) (c + 1) t =
        Inr (\<forall>k. 0 < k \<and> k < t - c - 1 \<longrightarrow> ?Q (k + 1))"
        using "1.IH" [OF False v None] "1.prems" False by (simp add: algebra_simps)
      moreover have "(\<forall>k. 0 < k \<and> k < t - c \<longrightarrow> ?Q k) \<longleftrightarrow>
            (\<forall>k. 0 < k \<and> k < t - c - 1 \<longrightarrow> ?Q (k + 1))"
        using between_shift [of "t - c" ?Q] v None False "1.prems" by simp
      ultimately show ?thesis using False v None
        by (subst diagonal_down_right_loop.simps) simp
    next
      case (Some p)
      have "\<not> (\<forall>k. 0 < k \<and> k < t - c \<longrightarrow> ?Q k)"
        using v Some False "1.prems" by (auto intro!: exI [of _ 1])
      then show ?thesis using False v Some
        by (subst diagonal_down_right_loop.simps) simp
    qed
  qed
qed

lemma diagonal_down_left_loop_wf:
  "wf_board b \<Longrightarrow> c < 8 \<Longrightarrow> t < c \<Longrightarrow> - 1 \<le> t \<Longrightarrow> 0 \<le> r \<Longrightarrow> r + (c - t) \<le> 8 \<Longrightarrow>
     diagonal_down_left_loop ix b r c t =
       Inr (\<forall>k. 0 < k \<and> k < c - t \<longrightarrow> get_piece_at ix b (r + k) (c - k) = Inr None)"
proof (induction ix b r c t rule: diagonal_down_left_loop.induct)
  case (1 ix b r c t)
  note wf = \<open>wf_board b\<close>
  let ?Q = "\<lambda>k. get_piece_at ix b (r + k) (c - k) = Inr None"
  show ?case
  proof (cases "c - 1 = t")
    case True
    then have "c - t = 1" by simp
    with True show ?thesis by (subst diagonal_down_left_loop.simps) auto
  next
    case False
    with "1.prems" have rng: "0 \<le> r + 1" "r + 1 < 8" "0 \<le> c - 1" "c - 1 < 8" by simp_all
    obtain v where v: "get_piece_at ix b (r + 1) (c - 1) = Inr v"
      using get_piece_at_wf [OF wf rng] by blast
    show ?thesis
    proof (cases v)
      case None
      have "diagonal_down_left_loop ix b (r + 1) (c - 1) t =
        Inr (\<forall>k. 0 < k \<and> k < c - t - 1 \<longrightarrow> ?Q (k + 1))"
        using "1.IH" [OF False v None] "1.prems" False by (simp add: algebra_simps)
      moreover have "(\<forall>k. 0 < k \<and> k < c - t \<longrightarrow> ?Q k) \<longleftrightarrow>
            (\<forall>k. 0 < k \<and> k < c - t - 1 \<longrightarrow> ?Q (k + 1))"
        using between_shift [of "c - t" ?Q] v None False "1.prems" by simp
      ultimately show ?thesis using False v None
        by (subst diagonal_down_left_loop.simps) simp
    next
      case (Some p)
      have "\<not> (\<forall>k. 0 < k \<and> k < c - t \<longrightarrow> ?Q k)"
        using v Some False "1.prems" by (auto intro!: exI [of _ 1])
      then show ?thesis using False v Some
        by (subst diagonal_down_left_loop.simps) simp
    qed
  qed
qed

lemma diagonal_up_left_loop_wf:
  "wf_board b \<Longrightarrow> c < 8 \<Longrightarrow> t < c \<Longrightarrow> - 1 \<le> t \<Longrightarrow> r < 8 \<Longrightarrow> - 1 \<le> r - (c - t) \<Longrightarrow>
     diagonal_up_left_loop ix b r c t =
       Inr (\<forall>k. 0 < k \<and> k < c - t \<longrightarrow> get_piece_at ix b (r - k) (c - k) = Inr None)"
proof (induction ix b r c t rule: diagonal_up_left_loop.induct)
  case (1 ix b r c t)
  note wf = \<open>wf_board b\<close>
  let ?Q = "\<lambda>k. get_piece_at ix b (r - k) (c - k) = Inr None"
  show ?case
  proof (cases "c - 1 = t")
    case True
    then have "c - t = 1" by simp
    with True show ?thesis by (subst diagonal_up_left_loop.simps) auto
  next
    case False
    with "1.prems" have rng: "0 \<le> r - 1" "r - 1 < 8" "0 \<le> c - 1" "c - 1 < 8" by simp_all
    obtain v where v: "get_piece_at ix b (r - 1) (c - 1) = Inr v"
      using get_piece_at_wf [OF wf rng] by blast
    show ?thesis
    proof (cases v)
      case None
      have "diagonal_up_left_loop ix b (r - 1) (c - 1) t =
        Inr (\<forall>k. 0 < k \<and> k < c - t - 1 \<longrightarrow> ?Q (k + 1))"
        using "1.IH" [OF False v None] "1.prems" False by (simp add: algebra_simps)
      moreover have "(\<forall>k. 0 < k \<and> k < c - t \<longrightarrow> ?Q k) \<longleftrightarrow>
            (\<forall>k. 0 < k \<and> k < c - t - 1 \<longrightarrow> ?Q (k + 1))"
        using between_shift [of "c - t" ?Q] v None False "1.prems" by simp
      ultimately show ?thesis using False v None
        by (subst diagonal_up_left_loop.simps) simp
    next
      case (Some p)
      have "\<not> (\<forall>k. 0 < k \<and> k < c - t \<longrightarrow> ?Q k)"
        using v Some False "1.prems" by (auto intro!: exI [of _ 1])
      then show ?thesis using False v Some
        by (subst diagonal_up_left_loop.simps) simp
    qed
  qed
qed

lemma between_plus:
  "(\<forall>k::int. 0 < k \<and> k < n \<longrightarrow> P (c + k)) \<longleftrightarrow> (\<forall>j. c < j \<and> j < c + n \<longrightarrow> P j)"
proof
  assume l: "\<forall>k. 0 < k \<and> k < n \<longrightarrow> P (c + k)"
  show "\<forall>j. c < j \<and> j < c + n \<longrightarrow> P j"
  proof (intro allI impI)
    fix j assume "c < j \<and> j < c + n"
    then have "0 < j - c \<and> j - c < n" by arith
    with l have "P (c + (j - c))" by blast
    then show "P j" by simp
  qed
next
  assume "\<forall>j. c < j \<and> j < c + n \<longrightarrow> P j"
  then show "\<forall>k. 0 < k \<and> k < n \<longrightarrow> P (c + k)" by simp
qed

lemma between_minus:
  "(\<forall>k::int. 0 < k \<and> k < n \<longrightarrow> P (c - k)) \<longleftrightarrow> (\<forall>j. c - n < j \<and> j < c \<longrightarrow> P j)"
proof
  assume l: "\<forall>k. 0 < k \<and> k < n \<longrightarrow> P (c - k)"
  show "\<forall>j. c - n < j \<and> j < c \<longrightarrow> P j"
  proof (intro allI impI)
    fix j assume "c - n < j \<and> j < c"
    then have "0 < c - j \<and> c - j < n" by arith
    with l have "P (c - (c - j))" by blast
    then show "P j" by simp
  qed
next
  assume "\<forall>j. c - n < j \<and> j < c \<longrightarrow> P j"
  then show "\<forall>k. 0 < k \<and> k < n \<longrightarrow> P (c - k)" by simp
qed

lemma check_horizontal_path_wf:
  assumes "wf_board b" "0 \<le> r" "r < 8" "0 \<le> fc" "fc < 8" "0 \<le> tc" "tc < 8"
  shows "check_horizontal_path ix b r fc tc =
           Inr (\<forall>j. min fc tc < j \<and> j < max fc tc \<longrightarrow> get_piece_at ix b r j = Inr None)"
proof -
  consider "fc < tc" | "tc < fc" | "fc = tc" by arith
  then show ?thesis
  proof cases
    case 1
    with assms show ?thesis
      using between_plus [of "tc - fc" "\<lambda>j. get_piece_at ix b r j = Inr None" fc]
      by (simp add: check_horizontal_path_def horizontal_right_loop_wf)
  next
    case 2
    with assms show ?thesis
      using between_minus [of "fc - tc" "\<lambda>j. get_piece_at ix b r j = Inr None" fc]
      by (simp add: check_horizontal_path_def horizontal_left_loop_wf)
  next
    case 3
    then show ?thesis by (auto simp: check_horizontal_path_def)
  qed
qed

lemma check_vertical_path_wf:
  assumes "wf_board b" "0 \<le> c" "c < 8" "0 \<le> fr" "fr < 8" "0 \<le> tr" "tr < 8"
  shows "check_vertical_path ix b fr c tr =
           Inr (\<forall>i. min fr tr < i \<and> i < max fr tr \<longrightarrow> get_piece_at ix b i c = Inr None)"
proof -
  consider "fr < tr" | "tr < fr" | "fr = tr" by arith
  then show ?thesis
  proof cases
    case 1
    with assms show ?thesis
      using between_plus [of "tr - fr" "\<lambda>i. get_piece_at ix b i c = Inr None" fr]
      by (simp add: check_vertical_path_def vertical_down_loop_wf)
  next
    case 2
    with assms show ?thesis
      using between_minus [of "fr - tr" "\<lambda>i. get_piece_at ix b i c = Inr None" fr]
      by (simp add: check_vertical_path_def vertical_up_loop_wf)
  next
    case 3
    then show ?thesis by (auto simp: check_vertical_path_def)
  qed
qed

lemma check_diagonal_path_wf:
  assumes "wf_board b" "0 \<le> fr" "fr < 8" "0 \<le> fc" "fc < 8"
      and "0 \<le> tr" "tr < 8" "0 \<le> tc" "tc < 8"
      and diag: "\<bar>tc - fc\<bar> = \<bar>tr - fr\<bar>"
  shows "check_diagonal_path ix b fr fc tr tc =
           Inr (\<forall>k. 0 < k \<and> k < \<bar>tc - fc\<bar> \<longrightarrow>
                  get_piece_at ix b (fr + k * sgn (tr - fr)) (fc + k * sgn (tc - fc)) = Inr None)"
proof -
  consider "tr < fr \<and> fc < tc" | "fr < tr \<and> fc < tc" | "fr < tr \<and> tc < fc"
    | "tr < fr \<and> tc < fc" | "fr = tr \<and> fc = tc"
    using diag by arith
  then show ?thesis
  proof cases
    case 1
    with assms diag show ?thesis
      by (simp add: check_diagonal_path_def diagonal_up_right_loop_wf)
  next
    case 2
    with assms diag show ?thesis
      by (simp add: check_diagonal_path_def diagonal_down_right_loop_wf)
  next
    case 3
    with assms diag show ?thesis
      by (simp add: check_diagonal_path_def diagonal_down_left_loop_wf)
  next
    case 4
    with assms diag show ?thesis
      by (simp add: check_diagonal_path_def diagonal_up_left_loop_wf)
  next
    case 5
    then show ?thesis by (auto simp: check_diagonal_path_def)
  qed
qed

subsection \<open>Sliding pieces and the knight\<close>

lemma Piece_is_valid_move_wf:
  assumes "wf_board b" "0 \<le> to_row" "to_row < 8" "0 \<le> to_col" "to_col < 8"
  shows "\<exists>ok. Piece_is_valid_move ix self b turn from_row from_col to_row to_col = Inr ok"
  using get_piece_at_wf [OF assms, of ix]
  by (auto simp: Piece_is_valid_move_def split: option.splits)

lemma Knight_reads_destination_only:
  assumes "get_piece_at ix b' to_row to_col = get_piece_at ix b to_row to_col"
  shows "Knight_is_valid_move ix self b' turn from_row from_col to_row to_col
       = Knight_is_valid_move ix self b turn from_row from_col to_row to_col"
  using assms by (simp add: Knight_is_valid_move_def Piece_is_valid_move_def)

text \<open>
  Claim C8. On an eight-by-eight grid, with both squares on the board: a rook move
  along a rank or a file with an occupied square strictly between the two squares is
  refused; a knight move of L-shape that passes the shared colour check is accepted,
  and the knight's answer is the same on every grid that agrees on the destination
  square, so no other square matters; and each path check returns \<open>True\<close> exactly
  when every square strictly between the two squares is empty (for the diagonal check,
  on a move with equal row and column distance, which is what its callers pass).
\<close>

theorem sliding_paths_and_knight_jumps:
  assumes wf: "wf_board b"
      and fr: "0 \<le> from_row" "from_row < 8" and fc: "0 \<le> from_col" "from_col < 8"
      and tr: "0 \<le> to_row" "to_row < 8" and tc: "0 \<le> to_col" "to_col < 8"
  shows "(to_row = from_row
            \<and> (\<exists>j. min from_col to_col < j \<and> j < max from_col to_col
                   \<and> get_piece_at ix b from_row j \<noteq> Inr None)
          \<longrightarrow> Rook_is_valid_move ix self b turn from_row from_col to_row to_col = Inr False)
       \<and> (to_col = from_col
            \<and> (\<exists>i. min from_row to_row < i \<and> i < max from_row to_row
                   \<and> get_piece_at ix b i from_col \<noteq> Inr None)
          \<longrightarrow> Rook_is_valid_move ix self b turn from_row from_col to_row to_col = Inr False)
       \<and> (Piece_is_valid_move ix self b turn from_row from_col to_row to_col = Inr True
            \<and> (\<bar>to_row - from_row\<bar> = 1 \<and> \<bar>to_col - from_col\<bar> = 2
                \<or> \<bar>to_row - from_row\<bar> = 2 \<and> \<bar>to_col - from_col\<bar> = 1)
          \<longrightarrow> Knight_is_valid_move ix self b turn from_row from_col to_row to_col = Inr True)
       \<and> (\<forall>b'. get_piece_at ix b' to_row to_col = get_piece_at ix b to_row to_col
          \<longrightarrow> Knight_is_valid_move ix self b' turn from_row from_col to_row to_col
              = Knight_is_valid_move ix self b turn from_row from_col to_row to_col)
       \<and> check_horizontal_path ix b from_row from_col to_col =
            Inr (\<forall>j. min from_col to_col < j \<and> j < max from_col to_col
                     \<longrightarrow> get_piece_at ix b from_row j = Inr None)
       \<and> check_vertical_path ix b from_row from_col to_row =
            Inr (\<forall>i. min from_row to_row < i \<and> i < max from_row to_row
                     \<longrightarrow> get_piece_at ix b i from_col = Inr None)
       \<and> (\<bar>to_col - from_col\<bar> = \<bar>to_row - from_row\<bar>
          \<longrightarrow> check_diagonal_path ix b from_row from_col to_row to_col =
                Inr (\<forall>k. 0 < k \<and> k < \<bar>to_col - from_col\<bar> \<longrightarrow>
                       get_piece_at ix b (from_row + k * sgn (to_row - from_row))
                                         (from_col + k * sgn (to_col - from_col)) = Inr None))"
proof -
  note h = check_horizontal_path_wf [OF wf fr fc tc, of ix]
  note v = check_vertical_path_wf [OF wf fc fr tr, of ix]
  obtain ok where ok: "Piece_is_valid_move ix self b turn from_row from_col to_row to_col = Inr ok"
    using Piece_is_valid_move_wf [OF wf tr tc] by blast
  have rook_h: "to_row = from_row
            \<and> (\<exists>j. min from_col to_col < j \<and> j < max from_col to_col
                   \<and> get_piece_at ix b from_row j \<noteq> Inr None)
          \<longrightarrow> Rook_is_valid_move ix self b turn from_row from_col to_row to_col = Inr False"
    using ok h by (auto simp: Rook_is_valid_move_def)
  have rook_v: "to_col = from_col
            \<and> (\<exists>i. min from_row to_row < i \<and> i < max from_row to_row
                   \<and> get_piece_at ix b i from_col \<noteq> Inr None)
          \<longrightarrow> Rook_is_valid_move ix self b turn from_row from_col to_row to_col = Inr False"
  proof (cases "to_row = from_row")
    case True
    then show ?thesis by auto
  next
    case False
    then show ?thesis using ok v by (auto simp: Rook_is_valid_move_def)
  qed
  have knight: "Piece_is_valid_move ix self b turn from_row from_col to_row to_col = Inr True
            \<and> (\<bar>to_row - from_row\<bar> = 1 \<and> \<bar>to_col - from_col\<bar> = 2
                \<or> \<bar>to_row - from_row\<bar> = 2 \<and> \<bar>to_col - from_col\<bar> = 1)
          \<longrightarrow> Knight_is_valid_move ix self b turn from_row from_col to_row to_col = Inr True"
    by (simp add: Knight_is_valid_move_def)
  have jump: "\<forall>b'. get_piece_at ix b' to_row to_col = get_piece_at ix b to_row to_col
          \<longrightarrow> Knight_is_valid_move ix self b' turn from_row from_col to_row to_col
              = Knight_is_valid_move ix self b turn from_row from_col to_row to_col"
    using Knight_reads_destination_only by blast
  have diag: "\<bar>to_col - from_col\<bar> = \<bar>to_row - from_row\<bar>
          \<longrightarrow> check_diagonal_path ix b from_row from_col to_row to_col =
                Inr (\<forall>k. 0 < k \<and> k < \<bar>to_col - from_col\<bar> \<longrightarrow>
                       get_piece_at ix b (from_row + k * sgn (to_row - from_row))
                                         (from_col + k * sgn (to_col - from_col)) = Inr None)"
    using check_diagonal_path_wf [OF wf fr fc tr tc, of ix] by blast
  from rook_h rook_v knight jump h v diag show ?thesis by (intro conjI)
qed

theorem sliding_paths_and_knight_jumps_witness:
  "Rook_is_valid_move Python (Piece WHITE Rook) position_after_a4_a6 WHITE 7 0 3 0 = Inr False
   \<and> check_vertical_path Python position_after_a4_a6 7 0 3 = Inr False
   \<and> check_vertical_path Python position_after_a4_a6 7 0 5 = Inr True
   \<and> Knight_is_valid_move Python (Piece WHITE Knight) position_after_a4_a6 WHITE 7 1 5 2
       = Inr True"
proof -
  let ?b = position_after_a4_a6
  have wf: "wf_board ?b" by code_simp
  have a4: "get_piece_at Python ?b 4 0 \<noteq> Inr None" by code_simp
  have a2: "get_piece_at Python ?b 6 0 = Inr None" by code_simp
  have pre: "Piece_is_valid_move Python (Piece WHITE Knight) ?b WHITE 7 1 5 2 = Inr True"
    by code_simp
  have blocked: "\<exists>i. min 7 3 < i \<and> i < max 7 3 \<and> get_piece_at Python ?b i 0 \<noteq> Inr None"
    using a4 by (intro exI [of _ 4]) simp
  have clear: "\<forall>i. min 7 5 < i \<and> i < max 7 5 \<longrightarrow> get_piece_at Python ?b i 0 = Inr None"
  proof (intro allI impI)
    fix i :: int assume "min 7 5 < i \<and> i < max 7 5"
    then have "i = 6" by simp
    with a2 show "get_piece_at Python ?b i 0 = Inr None" by simp
  qed
  note up4 = sliding_paths_and_knight_jumps
    [where b = ?b and from_row = 7 and from_col = 0 and to_row = 3 and to_col = 0
       and ix = Python and self = "Piece WHITE Rook" and turn = WHITE, OF wf]
  note up2 = sliding_paths_and_knight_jumps
    [where b = ?b and from_row = 7 and from_col = 0 and to_row = 5 and to_col = 0
       and ix = Python and self = "Piece WHITE Rook" and turn = WHITE, OF wf]
  note jump = sliding_paths_and_knight_jumps
    [where b = ?b and from_row = 7 and from_col = 1 and to_row = 5 and to_col = 2
       and ix = Python and self = "Piece WHITE Knight" and turn = WHITE, OF wf]
  have "Rook_is_valid_move Python (Piece WHITE Rook) ?b WHITE 7 0 3 0 = Inr False"
    using up4 blocked by simp
  moreover have "check_vertical_path Python ?b 7 0 3 = Inr False"
    using up4 blocked by simp
  moreover have "check_vertical_path Python ?b 7 0 5 = Inr True"
    using up2 clear by simp
  moreover have "Knight_is_valid_move Python (Piece WHITE Knight) ?b WHITE 7 1 5 2 = Inr True"
    using jump pre by simp
  ultimately show ?thesis by simp
qed

subsection \<open>Moving a piece\<close>

lemma wf_board_rows:
  assumes "wf_board b" "0 \<le> r" "r < 8"
  shows "length (board b) = 8 \<and> length (board b ! nat r) = 8"
proof -
  have len: "length (board b) = 8" using assms(1) by (simp add: wf_board_def)
  then have "board b ! nat r \<in> set (board b)" using assms(2,3) by (intro nth_mem) simp
  moreover have "\<forall>x \<in> set (board b). length x = 8" using assms(1) by (simp add: wf_board_def)
  ultimately have "length (board b ! nat r) = 8" by blast
  with len show ?thesis by simp
qed

lemma board_setitem_wf:
  assumes "wf_board b" "0 \<le> r" "r < 8" "0 \<le> c" "c < 8"
  shows "board_setitem ix b r c v = Inr (put b r c v)"
  using wf_board_rows [OF assms(1-3)] assms(2-5)
  by (simp add: board_setitem_def py_index_def py_setitem_def put_def Let_def)

lemma wf_board_put:
  assumes "wf_board b"
  shows "wf_board (put b r c v)"
proof (cases "nat r < length (board b)")
  case True
  then have "length (board b ! nat r) = 8" using assms by (simp add: wf_board_def)
  with assms show ?thesis
    by (auto simp: wf_board_def put_def dest!: set_update_subset_insert [THEN subsetD])
next
  case False
  then have "(board b)[nat r := x] = board b" for x
    by (intro list_update_beyond) simp
  then have "put b r c v = b" by (simp add: put_def)
  with assms show ?thesis by simp
qed

lemma counts_put [simp]: "current_pieces_on_board (put b r c v) = current_pieces_on_board b"
  by (simp add: put_def)

lemma get_piece_at_put:
  assumes "wf_board b" "0 \<le> r" "r < 8" "0 \<le> c" "c < 8"
      and "0 \<le> r'" "r' < 8" "0 \<le> c'" "c' < 8"
  shows "get_piece_at ix (put b r c v) r' c' =
           (if r' = r \<and> c' = c then Inr v else get_piece_at ix b r' c')"
proof -
  have l: "length (board b) = 8" "length (board b ! nat r) = 8"
    using wf_board_rows [OF assms(1-3)] by simp_all
  have "board (put b r c v) ! nat r' ! nat c' =
          (if r' = r \<and> c' = c then v else board b ! nat r' ! nat c')"
    using l assms(2-) by (auto simp: put_def nth_list_update)
  then show ?thesis
    using get_piece_at_wf [OF wf_board_put [OF assms(1)] assms(6-9), where ix = ix]
      get_piece_at_wf [OF assms(1) assms(6-9), where ix = ix]
    by simp
qed

lemma wf_board_remove [simp]:
  "wf_board (remove_piece_from_board b c k) \<longleftrightarrow> wf_board b"
  by (simp add: wf_board_def remove_piece_from_board_def)

lemma get_piece_at_remove [simp]:
  "get_piece_at ix (remove_piece_from_board b c k) row col = get_piece_at ix b row col"
  by (simp add: get_piece_at_def remove_piece_from_board_def)

lemma move_piece_wf:
  assumes wf: "wf_board b"
      and fr: "0 \<le> from_row" "from_row < 8" and fc: "0 \<le> from_col" "from_col < 8"
      and tr: "0 \<le> to_row" "to_row < 8" and tc: "0 \<le> to_col" "to_col < 8"
      and m: "get_piece_at ix b from_row from_col = Inr m"
      and q: "get_piece_at ix b to_row to_col = Inr q"
  shows "move_piece ix b from_row from_col to_row to_col =
           Inr (put (put (case q of None \<Rightarrow> b
                          | Some p \<Rightarrow> remove_piece_from_board b (get_color p) (class_name p))
                      to_row to_col m) from_row from_col None)"
proof -
  let ?b1 = "case q of None \<Rightarrow> b
             | Some p \<Rightarrow> remove_piece_from_board b (get_color p) (class_name p)"
  have wf1: "wf_board ?b1" using wf by (cases q) simp_all
  have m1: "get_piece_at ix ?b1 from_row from_col = Inr m" using m by (cases q) simp_all
  have s1: "board_setitem ix ?b1 to_row to_col m = Inr (put ?b1 to_row to_col m)"
    using wf1 tr tc by (rule board_setitem_wf)
  have s2: "board_setitem ix (put ?b1 to_row to_col m) from_row from_col None
              = Inr (put (put ?b1 to_row to_col m) from_row from_col None)"
    using wf_board_put [OF wf1] fr fc by (rule board_setitem_wf)
  show ?thesis
    unfolding move_piece_def Let_def using q m1 s1 s2 by simp
qed

lemma is_valid_move_shared_check:
  assumes "is_valid_move ix p b turn from_row from_col to_row to_col = Inr True"
  shows "Piece_is_valid_move ix p b turn from_row from_col to_row to_col = Inr True"
  using assms unfolding is_valid_move_def
  by (cases "class_name p")
     (auto simp: King_is_valid_move_def Queen_is_valid_move_def Rook_is_valid_move_def
        Bishop_is_valid_move_def Knight_is_valid_move_def Pawn_is_valid_move_def
        split: sum.splits if_splits)

lemma Piece_is_valid_move_True:
  assumes "Piece_is_valid_move ix p b turn from_row from_col to_row to_col = Inr True"
  shows "get_color p = turn
       \<and> (\<exists>q. get_piece_at ix b to_row to_col = Inr q
              \<and> (\<forall>x. q = Some x \<longrightarrow> get_color x \<noteq> turn))"
  using assms
  by (auto simp: Piece_is_valid_move_def split: if_splits sum.splits option.splits)

lemma legal_move_squares:
  assumes "get_piece_at ix b from_row from_col = Inr (Some p)"
      and "is_valid_move ix p b turn from_row from_col to_row to_col = Inr True"
  obtains q where "get_color p = turn" "get_piece_at ix b to_row to_col = Inr q"
      "\<And>x. q = Some x \<Longrightarrow> get_color x \<noteq> get_color p"
      "(from_row, from_col) \<noteq> (to_row, to_col)"
proof -
  from Piece_is_valid_move_True [OF is_valid_move_shared_check [OF assms(2)]]
  obtain q where c: "get_color p = turn" and q: "get_piece_at ix b to_row to_col = Inr q"
    and o: "\<forall>x. q = Some x \<longrightarrow> get_color x \<noteq> turn" by blast
  have "(from_row, from_col) \<noteq> (to_row, to_col)"
  proof
    assume "(from_row, from_col) = (to_row, to_col)"
    with assms(1) q have "q = Some p" by simp
    with o c show False by simp
  qed
  with c q o that show thesis by simp
qed

text \<open>
  Claim C2. On an eight-by-eight grid, with both squares on the board, if the piece on
  the square moved from reports the move legal, then \<open>move_piece\<close> returns a board on
  which that piece stands on the destination and the square moved from is empty. If
  the destination held a piece, it was of the other colour, the count of its colour and
  class is one less, and every other count is as before; if the destination was empty,
  all counts are as before.
\<close>

theorem move_piece_effect:
  assumes wf: "wf_board b"
      and fr: "0 \<le> from_row" "from_row < 8" and fc: "0 \<le> from_col" "from_col < 8"
      and tr: "0 \<le> to_row" "to_row < 8" and tc: "0 \<le> to_col" "to_col < 8"
      and p: "get_piece_at ix b from_row from_col = Inr (Some p)"
      and legal: "is_valid_move ix p b turn from_row from_col to_row to_col = Inr True"
  shows "\<exists>b'. move_piece ix b from_row from_col to_row to_col = Inr b'
           \<and> get_piece_at ix b' to_row to_col = Inr (Some p)
           \<and> get_piece_at ix b' from_row from_col = Inr None
           \<and> (\<forall>q. get_piece_at ix b to_row to_col = Inr (Some q) \<longrightarrow>
                  get_color q \<noteq> get_color p
                  \<and> (\<forall>c k. current_pieces_on_board b' c k =
                        (if c = get_color q \<and> k = class_name q
                         then current_pieces_on_board b c k - 1
                         else current_pieces_on_board b c k)))
           \<and> (get_piece_at ix b to_row to_col = Inr None \<longrightarrow>
                  current_pieces_on_board b' = current_pieces_on_board b)"
proof -
  from p legal obtain q where q: "get_piece_at ix b to_row to_col = Inr q"
    and opp: "\<And>x. q = Some x \<Longrightarrow> get_color x \<noteq> get_color p"
    and ne: "(from_row, from_col) \<noteq> (to_row, to_col)"
    by (rule legal_move_squares) blast
  let ?b1 = "case q of None \<Rightarrow> b
             | Some x \<Rightarrow> remove_piece_from_board b (get_color x) (class_name x)"
  let ?b' = "put (put ?b1 to_row to_col (Some p)) from_row from_col None"
  have wf1: "wf_board ?b1" using wf by (cases q) simp_all
  have mv: "move_piece ix b from_row from_col to_row to_col = Inr ?b'"
    using move_piece_wf [OF wf fr fc tr tc p q] .
  have at_to: "get_piece_at ix ?b' to_row to_col = Inr (Some p)"
    using ne
    by (auto simp: get_piece_at_put [OF wf_board_put [OF wf1] fr fc tr tc]
          get_piece_at_put [OF wf1 tr tc tr tc])
  have at_from: "get_piece_at ix ?b' from_row from_col = Inr None"
    by (simp add: get_piece_at_put [OF wf_board_put [OF wf1] fr fc fr fc])
  have counts: "current_pieces_on_board ?b' = current_pieces_on_board ?b1" by simp
  have captured: "\<forall>x. get_piece_at ix b to_row to_col = Inr (Some x) \<longrightarrow>
                  get_color x \<noteq> get_color p
                  \<and> (\<forall>c k. current_pieces_on_board ?b' c k =
                        (if c = get_color x \<and> k = class_name x
                         then current_pieces_on_board b c k - 1
                         else current_pieces_on_board b c k))"
    using q opp counts by (auto simp: remove_piece_from_board_def)
  have empty: "get_piece_at ix b to_row to_col = Inr None \<longrightarrow>
                  current_pieces_on_board ?b' = current_pieces_on_board b"
    using q counts by auto
  from mv at_to at_from captured empty show ?thesis by blast
qed

theorem move_piece_effect_witness:
  "(\<exists>b'. move_piece Python position_after_e4_d5 4 4 3 3 = Inr b'
         \<and> get_piece_at Python b' 3 3 = Inr (Some (Piece WHITE Pawn))
         \<and> get_piece_at Python b' 4 4 = Inr None
         \<and> current_pieces_on_board b' BLACK Pawn = 7
         \<and> current_pieces_on_board b' WHITE Pawn = 8)
   \<and> (\<exists>b'. move_piece Python position_after_e4_d5 4 4 3 4 = Inr b'
         \<and> get_piece_at Python b' 3 4 = Inr (Some (Piece WHITE Pawn))
         \<and> get_piece_at Python b' 4 4 = Inr None
         \<and> current_pieces_on_board b' = current_pieces_on_board position_after_e4_d5)"
proof -
  let ?b = position_after_e4_d5 and ?p = "Piece WHITE Pawn"
  have wf: "wf_board ?b" by code_simp
  have p: "get_piece_at Python ?b 4 4 = Inr (Some ?p)" by code_simp
  have d5: "get_piece_at Python ?b 3 3 = Inr (Some (Piece BLACK Pawn))" by code_simp
  have e5: "get_piece_at Python ?b 3 4 = Inr None" by code_simp
  have takes: "is_valid_move Python ?p ?b WHITE 4 4 3 3 = Inr True" by code_simp
  have steps: "is_valid_move Python ?p ?b WHITE 4 4 3 4 = Inr True" by code_simp
  have n: "current_pieces_on_board ?b BLACK Pawn = 8" "current_pieces_on_board ?b WHITE Pawn = 8"
    by code_simp+
  from move_piece_effect [OF wf _ _ _ _ _ _ _ _ p takes] d5 n
  have first: "\<exists>b'. move_piece Python ?b 4 4 3 3 = Inr b'
         \<and> get_piece_at Python b' 3 3 = Inr (Some ?p)
         \<and> get_piece_at Python b' 4 4 = Inr None
         \<and> current_pieces_on_board b' BLACK Pawn = 7
         \<and> current_pieces_on_board b' WHITE Pawn = 8"
    by auto
  from move_piece_effect [OF wf _ _ _ _ _ _ _ _ p steps] e5
  have "\<exists>b'. move_piece Python ?b 4 4 3 4 = Inr b'
         \<and> get_piece_at Python b' 3 4 = Inr (Some ?p)
         \<and> get_piece_at Python b' 4 4 = Inr None
         \<and> current_pieces_on_board b' = current_pieces_on_board ?b"
    by auto
  with first show ?thesis by blast
qed

end
